theory Spec2Isabelle
  imports Complex_Main "HOL-Library.Multiset" "HOL-Library.Word"
begin

section \<open>Python values used by the analysers\<close>

text \<open>
  A Python \<open>str\<close> is a sequence of Unicode code points, a \<open>bytes\<close> object a sequence
  of octets. String literals of the source are written \<open>py_str ''...''\<close>.
\<close>

type_synonym str = "nat list"
type_synonym bytes = "8 word list"

definition py_str :: "string \<Rightarrow> str" where
  "py_str s = map of_char s"

datatype py_error = ValueError | IndexError | KeyError | FileNotFoundError | ZeroDivisionError

text \<open>\<open>xs[a:b]\<close>: negative bounds count from the end, both bounds are clamped.\<close>

definition py_slice :: "'a list \<Rightarrow> int \<Rightarrow> int \<Rightarrow> 'a list" where
  "py_slice xs a b =
     (let n = int (length xs);
          lo = (if a < 0 then max (a + n) 0 else min a n);
          hi = (if b < 0 then max (b + n) 0 else min b n)
      in take (nat (hi - lo)) (drop (nat lo) xs))"

text \<open>\<open>sep.join(xs)\<close>\<close>

fun join :: "str \<Rightarrow> str list \<Rightarrow> str" where
  "join sep [] = []"
| "join sep [x] = x"
| "join sep (x # y # ys) = x @ sep @ join sep (y # ys)"

text \<open>The code points for which \<open>str.isspace\<close> holds; \<open>str.split()\<close> splits at runs of them.\<close>

definition is_space :: "nat \<Rightarrow> bool" where
  "is_space c \<longleftrightarrow>
     (9 \<le> c \<and> c \<le> 13) \<or> (28 \<le> c \<and> c \<le> 32) \<or> c = 133 \<or> c = 160 \<or> c = 5760 \<or>
     (8192 \<le> c \<and> c \<le> 8202) \<or> c = 8232 \<or> c = 8233 \<or> c = 8239 \<or> c = 8287 \<or> c = 12288"

fun split_from :: "str \<Rightarrow> str \<Rightarrow> str list" where
  "split_from cur [] = (if cur = [] then [] else [cur])"
| "split_from cur (c # cs) =
     (if is_space c then (if cur = [] then split_from [] cs else cur # split_from [] cs)
      else split_from (cur @ [c]) cs)"

definition split :: "str \<Rightarrow> str list" where
  "split s = split_from [] s"

section \<open>Frequency.py\<close>

text \<open>
  \<open>generate_groups(line, l)\<close>: one phrase for each \<open>i\<close> in \<open>range(len(line) - l)\<close>, the
  tokens \<open>line[i:i+l]\<close> joined by a blank. The generator is modelled by the list of the
  values it yields.
\<close>

definition generate_groups :: "str list \<Rightarrow> int \<Rightarrow> str list" where
  "generate_groups line l =
     map (\<lambda>i. join (py_str '' '') (py_slice line (int i) (int i + l)))
       [0 ..< nat (int (length line) - l)]"

section \<open>Counters\<close>

text \<open>
  A \<open>collections.Counter\<close> is a dictionary from keys to integer counts; two counters are
  equal when they hold the same keys with the same counts. Reading a missing key gives
  \<open>0\<close> and leaves the counter as it is.
\<close>

type_synonym counter = "str \<rightharpoonup> int"

definition counter_get :: "counter \<Rightarrow> str \<Rightarrow> int" where
  "counter_get c k = (case c k of None \<Rightarrow> 0 | Some v \<Rightarrow> v)"

text \<open>\<open>c[k] += 1\<close>\<close>

definition counter_incr :: "counter \<Rightarrow> str \<Rightarrow> counter" where
  "counter_incr c k = c(k \<mapsto> counter_get c k + 1)"

text \<open>A dictionary of counters, \<open>{word: Counter() for word in words}\<close> at the start.\<close>

type_synonym table = "str \<rightharpoonup> counter"

definition init_table :: "str list \<Rightarrow> table" where
  "init_table words = (\<lambda>w. if w \<in> set words then Some Map.empty else None)"

text \<open>A \<open>for\<close> loop whose body may raise: the first exception ends the loop.\<close>

fun for_each :: "('s \<Rightarrow> 'a \<Rightarrow> py_error + 's) \<Rightarrow> 'a list \<Rightarrow> 's \<Rightarrow> py_error + 's" where
  "for_each body [] s = Inr s"
| "for_each body (x # xs) s =
     (case body s x of Inl e \<Rightarrow> Inl e | Inr s' \<Rightarrow> for_each body xs s')"

text \<open>
  \<open>a += b\<close> on counters (\<open>Counter.__iadd__\<close>): every count of \<open>b\<close> is added to \<open>a\<close>, then
  the entries whose count is not positive are deleted.
\<close>

definition keep_positive :: "counter \<Rightarrow> counter" where
  "keep_positive c = (\<lambda>k. case c k of None \<Rightarrow> None | Some v \<Rightarrow> if 0 < v then Some v else None)"

definition counter_iadd :: "counter \<Rightarrow> counter \<Rightarrow> counter" where
  "counter_iadd a b =
     keep_positive (\<lambda>k. case b k of None \<Rightarrow> a k | Some v \<Rightarrow> Some (counter_get a k + v))"

text \<open>The counters every \<open>process\<close> method builds hold positive counts only.\<close>

definition positive_counts :: "counter \<Rightarrow> bool" where
  "positive_counts c \<longleftrightarrow> (\<forall>k v. c k = Some v \<longrightarrow> 0 < v)"

text \<open>
  The merge loop of the \<open>execute\<close> methods that keep a dictionary of counters:
  \<open>master_count = {word: Counter() for word in words}\<close>, then for every partial result
  \<open>for word in self.master_count: self.master_count[word] += count[word]\<close>. The keys are
  visited in the order of their first occurrence in \<open>words\<close>.
\<close>

definition merge_word :: "table \<Rightarrow> table \<Rightarrow> str \<Rightarrow> py_error + table" where
  "merge_word cnt master word =
     (case master word of
        None \<Rightarrow> Inl KeyError
      | Some m \<Rightarrow>
          (case cnt word of
             None \<Rightarrow> Inl KeyError
           | Some c \<Rightarrow> Inr (master(word \<mapsto> counter_iadd m c))))"

definition merge_tables :: "str list \<Rightarrow> table list \<Rightarrow> py_error + table" where
  "merge_tables words counts =
     for_each (\<lambda>master cnt. for_each (merge_word cnt) (rev (remdups (rev words))) master)
       counts (init_table words)"

section \<open>Frequency.py: counting and merging\<close>

text \<open>
  \<open>reduce_count\<close>: the dictionary comprehension keeps the items whose count is above
  the configured \<open>discard_threshold\<close>.
\<close>

definition reduce_count :: "int \<Rightarrow> counter \<Rightarrow> counter" where
  "reduce_count thresh cnt =
     (\<lambda>key. case cnt key of None \<Rightarrow> None | Some c \<Rightarrow> if c > thresh then Some c else None)"

text \<open>
  \<open>process\<close>: the counting loops over the lines of one partition file (given by its
  lines), before and after \<open>reduce_count\<close>.
\<close>

definition frequency_count :: "int \<Rightarrow> str list \<Rightarrow> counter" where
  "frequency_count l file =
     foldl (\<lambda>cnt line. foldl counter_incr cnt (generate_groups (split line) l)) Map.empty file"

definition frequency_process :: "int \<Rightarrow> int \<Rightarrow> str list \<Rightarrow> counter" where
  "frequency_process l thresh file = reduce_count thresh (frequency_count l file)"

text \<open>
  \<open>execute\<close>: \<open>master_count = Counter()\<close>, then \<open>master_count += count\<close> for the partial
  counts in the order in which the pool delivers them.
\<close>

definition frequency_merge :: "counter list \<Rightarrow> counter" where
  "frequency_merge counts = foldl counter_iadd Map.empty counts"

section \<open>SpecificCollocate.py and GeneralCollocateAnalysis.py\<close>

text \<open>
  Both \<open>process_line\<close> functions hold the same block inside \<open>try\<close>: the index logic, the
  two range checks that raise \<open>IndexError\<close>, and the phrase \<open>line[i+neg:i+pos]\<close> joined
  by a blank. \<open>extract_phrase\<close> is that block up to the phrase.
\<close>

definition extract_phrase :: "str list \<Rightarrow> nat \<Rightarrow> int \<Rightarrow> py_error + str" where
  "extract_phrase line i n =
     (let neg = (if n < 0 then n else 1);
          pos = (if n > 0 then n + 1 else 0)
      in if int i - neg < 0 then Inl IndexError
         else if int i + pos > int (length line) - 1 then Inl IndexError
         else Inr (join (py_str '' '') (py_slice line (int i + neg) (int i + pos))))"

text \<open>
  The body of the loop over \<open>enumerate(line)\<close> in \<open>SpecificCollocate.process_line\<close>.
  \<open>count[word]\<close> on a plain dictionary raises \<open>KeyError\<close> for a missing key;
  \<open>except IndexError: pass\<close> swallows the range failure only.
\<close>

definition specific_visit :: "str list \<Rightarrow> int \<Rightarrow> str list \<Rightarrow> table \<Rightarrow> nat \<Rightarrow> py_error + table" where
  "specific_visit words n line tab i =
     (let word = line ! i in
      if word \<in> set words then
        (case tab word of
           None \<Rightarrow> Inl KeyError
         | Some c \<Rightarrow>
             (let c1 = counter_incr c (py_str ''TOTAL'') in
              case extract_phrase line i n of
                Inl e \<Rightarrow> (if e = IndexError then Inr (tab(word \<mapsto> c1)) else Inl e)
              | Inr phrase \<Rightarrow> Inr (tab(word \<mapsto> counter_incr c1 phrase))))
      else Inr tab)"

definition specific_process_line :: "table \<Rightarrow> str \<Rightarrow> str list \<Rightarrow> int \<Rightarrow> py_error + table" where
  "specific_process_line tab line words n =
     (let toks = split line
      in for_each (specific_visit words n toks) [0 ..< length toks] tab)"

text \<open>\<open>SpecificCollocate.process\<close>; the partition file is given by its lines.\<close>

definition specific_process :: "str list \<Rightarrow> int \<Rightarrow> str list \<Rightarrow> py_error + table" where
  "specific_process words n file =
     for_each (\<lambda>tab line. specific_process_line tab line words n) file (init_table words)"

definition total_dominates :: "counter \<Rightarrow> bool" where
  "total_dominates c \<longleftrightarrow> (\<forall>p. counter_get c p \<le> counter_get c (py_str ''TOTAL''))"

text \<open>
  \<open>GeneralCollocateAnalysis.process_line\<close>: no \<open>TOTAL\<close> key, and an inner loop over the
  offsets \<open>[-2, -1, 1, 2]\<close>.
\<close>

definition general_offset :: "str list \<Rightarrow> nat \<Rightarrow> table \<Rightarrow> int \<Rightarrow> py_error + table" where
  "general_offset line i tab n =
     (case extract_phrase line i n of
        Inl e \<Rightarrow> (if e = IndexError then Inr tab else Inl e)
      | Inr phrase \<Rightarrow>
          (case tab (line ! i) of
             None \<Rightarrow> Inl KeyError
           | Some c \<Rightarrow> Inr (tab(line ! i \<mapsto> counter_incr c phrase))))"

definition general_visit :: "str list \<Rightarrow> str list \<Rightarrow> table \<Rightarrow> nat \<Rightarrow> py_error + table" where
  "general_visit words line tab i =
     (if line ! i \<in> set words then for_each (general_offset line i) [-2, -1, 1, 2] tab
      else Inr tab)"

definition general_process_line :: "table \<Rightarrow> str \<Rightarrow> str list \<Rightarrow> py_error + table" where
  "general_process_line tab line words =
     (let toks = split line
      in for_each (general_visit words toks) [0 ..< length toks] tab)"

definition general_process :: "str list \<Rightarrow> str list \<Rightarrow> py_error + table" where
  "general_process words file =
     for_each (\<lambda>tab line. general_process_line tab line words) file (init_table words)"

section \<open>PoSFrequency.py\<close>

text \<open>
  \<open>generate_groups(line)\<close>: the tags of every pair of consecutive tokens. The tagger
  \<open>nltk.pos_tag\<close> is an argument: it maps the token list to a list of (token, tag) pairs.
\<close>

definition pos_generate_groups :: "(str list \<Rightarrow> (str \<times> str) list) \<Rightarrow> str list \<Rightarrow> (str \<times> str) list" where
  "pos_generate_groups pos_tag line =
     (let tagged = pos_tag line
      in map (\<lambda>i. (snd (tagged ! i), snd (tagged ! (i + 1)))) [0 ..< length tagged - 1])"

text \<open>
  \<open>try: count[first][second] += 1 except KeyError: pass\<close>. Only \<open>count[first]\<close>, the lookup
  in the plain dictionary, can raise; the increment of the counter it returns cannot.
\<close>

definition pos_count_pair :: "table \<Rightarrow> str \<times> str \<Rightarrow> table" where
  "pos_count_pair tab pair =
     (case tab (fst pair) of
        None \<Rightarrow> tab
      | Some c \<Rightarrow> tab(fst pair \<mapsto> counter_incr c (snd pair)))"

text \<open>
  \<open>process\<close>; \<open>pos_tags\<close> is \<open>constants.POS_TAGS\<close>, the partition file is given by its
  lines.
\<close>

definition pos_process :: "str list \<Rightarrow> (str list \<Rightarrow> (str \<times> str) list) \<Rightarrow> str list \<Rightarrow> table" where
  "pos_process pos_tags pos_tag file =
     foldl (\<lambda>tab line. foldl pos_count_pair tab (pos_generate_groups pos_tag (split line)))
       (init_table pos_tags) file"

text \<open>All tag pairs of a partition file, in the order in which \<open>process\<close> meets them.\<close>

definition pos_pairs :: "(str list \<Rightarrow> (str \<times> str) list) \<Rightarrow> str list \<Rightarrow> (str \<times> str) list" where
  "pos_pairs pos_tag file = concat (map (\<lambda>line. pos_generate_groups pos_tag (split line)) file)"

text \<open>A tagger given by a lookup table and a tag for the words the table does not hold.\<close>

definition table_tagger :: "(str \<times> str) list \<Rightarrow> str \<Rightarrow> str list \<Rightarrow> (str \<times> str) list" where
  "table_tagger entries other toks =
     map (\<lambda>w. (w, case map_of entries w of None \<Rightarrow> other | Some t \<Rightarrow> t)) toks"

section \<open>AnalyserTemplate.py\<close>

subsection \<open>Decoding and splitting\<close>

text \<open>
  \<open>bytes.decode("UTF-8")\<close> with the default strict error handling: \<open>None\<close> stands for
  \<open>UnicodeDecodeError\<close>. Overlong forms, surrogates and code points above \<open>0x10FFFF\<close>
  are rejected, as is a sequence cut short by the end of the input.
\<close>

definition is_cont :: "8 word \<Rightarrow> bool" where
  "is_cont b \<longleftrightarrow> 128 \<le> unat b \<and> unat b \<le> 191"

definition cont_bits :: "8 word \<Rightarrow> nat" where
  "cont_bits b = unat b - 128"

fun utf8_decode :: "bytes \<Rightarrow> str option" where
  "utf8_decode [] = Some []"
| "utf8_decode (b0 # bs) =
     (if unat b0 < 128 then map_option ((#) (unat b0)) (utf8_decode bs)
      else if 194 \<le> unat b0 \<and> unat b0 \<le> 223 then
        (case bs of
           b1 # r \<Rightarrow>
             if is_cont b1
             then map_option ((#) ((unat b0 - 192) * 64 + cont_bits b1)) (utf8_decode r)
             else None
         | _ \<Rightarrow> None)
      else if 224 \<le> unat b0 \<and> unat b0 \<le> 239 then
        (case bs of
           b1 # b2 # r \<Rightarrow>
             (let cp = (unat b0 - 224) * 4096 + cont_bits b1 * 64 + cont_bits b2
              in if is_cont b1 \<and> is_cont b2 \<and> 2048 \<le> cp \<and> \<not> (55296 \<le> cp \<and> cp \<le> 57343)
                 then map_option ((#) cp) (utf8_decode r)
                 else None)
         | _ \<Rightarrow> None)
      else if 240 \<le> unat b0 \<and> unat b0 \<le> 244 then
        (case bs of
           b1 # b2 # b3 # r \<Rightarrow>
             (let cp = (unat b0 - 240) * 262144 + cont_bits b1 * 4096 + cont_bits b2 * 64
                         + cont_bits b3
              in if is_cont b1 \<and> is_cont b2 \<and> is_cont b3 \<and> 65536 \<le> cp \<and> cp \<le> 1114111
                 then map_option ((#) cp) (utf8_decode r)
                 else None)
         | _ \<Rightarrow> None)
      else None)"

text \<open>
  \<open>buffer.rsplit('\n', maxsplit=1)\<close>: the text before and after the last newline, or the
  whole text alone when it holds no newline.
\<close>

definition rsplit_newline :: "str \<Rightarrow> str list" where
  "rsplit_newline s =
     (if 10 \<in> set s
      then [rev (tl (dropWhile (\<lambda>c. c \<noteq> 10) (rev s))), rev (takeWhile (\<lambda>c. c \<noteq> 10) (rev s))]
      else [s])"

text \<open>\<open>a, b = xs\<close>: unpacking into two names raises \<open>ValueError\<close> unless \<open>xs\<close> has two items.\<close>

definition unpack2 :: "'a list \<Rightarrow> py_error + 'a \<times> 'a" where
  "unpack2 xs = (case xs of [a, b] \<Rightarrow> Inr (a, b) | _ \<Rightarrow> Inl ValueError)"

text \<open>\<open>str.splitlines()\<close>: the line boundaries of Python, \<open>\r\n\<close> counted once.\<close>

definition is_linebreak :: "nat \<Rightarrow> bool" where
  "is_linebreak c \<longleftrightarrow>
     (10 \<le> c \<and> c \<le> 13) \<or> (28 \<le> c \<and> c \<le> 30) \<or> c = 133 \<or> c = 8232 \<or> c = 8233"

fun splitlines_from :: "str \<Rightarrow> str \<Rightarrow> str list" where
  "splitlines_from cur [] = (if cur = [] then [] else [cur])"
| "splitlines_from cur [c] = (if is_linebreak c then [cur] else [cur @ [c]])"
| "splitlines_from cur (c # d # ds) =
     (if c = 13 \<and> d = 10 then cur # splitlines_from [] ds
      else if is_linebreak c then cur # splitlines_from [] (d # ds)
      else splitlines_from (cur @ [c]) (d # ds))"

definition splitlines :: "str \<Rightarrow> str list" where
  "splitlines s = splitlines_from [] s"

subsection \<open>generate_chunk\<close>

text \<open>
  The generator is modelled by the list of the chunks it yields and by the way it ends:
  the loop condition fails (with the local \<open>overlap\<close> as it is then), or an exception
  leaves the generator. \<open>resource\<close> is what is left to read of the file, \<open>file_size\<close> is
  \<open>self.file_size\<close>. The bare \<open>except\<close> around the read and the decoding skips the window;
  the unpacking of \<open>rsplit\<close> is outside of it.
\<close>

datatype outcome = Exhausted str | Raised py_error

function chunk_loop :: "nat \<Rightarrow> nat \<Rightarrow> nat \<Rightarrow> str \<Rightarrow> bytes \<Rightarrow> str list \<times> outcome" where
  "chunk_loop chunk_size file_size p overlap resource =
     (if p \<le> file_size then
        (let n = (if file_size - p < chunk_size then file_size - p else chunk_size)
         in case utf8_decode (take n resource) of
              None \<Rightarrow> chunk_loop chunk_size file_size (p + chunk_size) overlap (drop n resource)
            | Some decoded \<Rightarrow>
                (case unpack2 (rsplit_newline (overlap @ decoded)) of
                   Inl e \<Rightarrow> ([], Raised e)
                 | Inr (buffer, overlap') \<Rightarrow>
                     (case chunk_loop chunk_size file_size (p + chunk_size) overlap'
                             (drop n resource) of
                        (chunks, out) \<Rightarrow> (buffer # chunks, out))))
      else ([], Exhausted overlap))"
  by pat_completeness auto
termination
proof (relation "measure (\<lambda>(chunk_size, file_size, p, overlap, resource).
                   2 * (Suc file_size - p) + (if 10 \<in> set overlap then 1 else 0))")
  show "wf (measure (\<lambda>(chunk_size, file_size, p, overlap, resource).
                   2 * (Suc file_size - p) + (if 10 \<in> set overlap then 1 else (0::nat))))"
    by simp
next
  fix chunk_size file_size p :: nat and overlap :: str and resource :: bytes and n
  assume le: "p \<le> file_size"
    and n: "n = (if file_size - p < chunk_size then file_size - p else chunk_size)"
    and none: "utf8_decode (take n resource) = None"
  have "chunk_size \<noteq> 0"
  proof
    assume "chunk_size = 0"
    with n have "n = 0" by simp
    with none show False by simp
  qed
  with le show "((chunk_size, file_size, p + chunk_size, overlap, drop n resource),
          chunk_size, file_size, p, overlap, resource)
        \<in> measure (\<lambda>(chunk_size, file_size, p, overlap, resource).
                   2 * (Suc file_size - p) + (if 10 \<in> set overlap then 1 else 0))"
    by auto
next
  fix chunk_size file_size p :: nat and overlap decoded buffer overlap' :: str
    and resource :: bytes and n x
  assume le: "p \<le> file_size"
    and n: "n = (if file_size - p < chunk_size then file_size - p else chunk_size)"
    and some: "utf8_decode (take n resource) = Some decoded"
    and split: "unpack2 (rsplit_newline (overlap @ decoded)) = Inr x" "(buffer, overlap') = x"
  from split have nl: "10 \<in> set (overlap @ decoded)" and ov: "10 \<notin> set overlap'"
    by (auto simp: unpack2_def rsplit_newline_def split: if_splits dest: set_takeWhileD)
  have "chunk_size = 0 \<Longrightarrow> 10 \<in> set overlap"
  proof -
    assume "chunk_size = 0"
    with n have "n = 0" by simp
    with some have "decoded = []" by simp
    with nl show ?thesis by simp
  qed
  with le ov show "((chunk_size, file_size, p + chunk_size, overlap', drop n resource),
          chunk_size, file_size, p, overlap, resource)
        \<in> measure (\<lambda>(chunk_size, file_size, p, overlap, resource).
                   2 * (Suc file_size - p) + (if 10 \<in> set overlap then 1 else 0))"
    by (cases "chunk_size = 0") auto
qed

text \<open>\<open>generate_chunk(filename)\<close> on a file with the given bytes, whose size is \<open>file_size\<close>.\<close>

definition generate_chunk :: "nat \<Rightarrow> bytes \<Rightarrow> str list \<times> outcome" where
  "generate_chunk chunk_size file = chunk_loop chunk_size (length file) 0 [] file"

text \<open>
  The byte windows of a file, \<open>chunk_size\<close> bytes each and the last one shorter, and the
  text of those that decode: the windows the bare \<open>except\<close> skips add nothing.
\<close>

function byte_windows :: "nat \<Rightarrow> bytes \<Rightarrow> bytes list" where
  "byte_windows chunk_size bs =
     (if chunk_size = 0 \<or> bs = [] then []
      else take chunk_size bs # byte_windows chunk_size (drop chunk_size bs))"
  by pat_completeness auto
termination
  by (relation "measure (\<lambda>(chunk_size, bs). length bs)") auto

definition decoded_text :: "nat \<Rightarrow> bytes \<Rightarrow> str" where
  "decoded_text chunk_size bs =
     concat (map (\<lambda>w. case utf8_decode w of None \<Rightarrow> [] | Some t \<Rightarrow> t)
               (byte_windows chunk_size bs))"

subsection \<open>The destination folder\<close>

text \<open>
  The pre-processed folder is absent (\<open>None\<close>) or holds files, by name. \<open>trace\<close> records
  the operations on it in the order in which they happen.
\<close>

datatype fs_event = Mkdir | Write str | Rmtree

record store =
  dest :: "(str \<rightharpoonup> str) option"
  trace :: "fs_event list"

text \<open>
  The configuration the ingestion reads: \<open>self.language\<close>, \<open>self.chunk_size\<close>, and
  \<open>pre_process_line\<close> with the tables of \<open>constants.py\<close> and the configured \<open>lstrip\<close> and
  \<open>rstrip\<close> as a function from a raw line to its normalised form.
\<close>

record config =
  language :: str
  chunk_size :: nat
  pre_process_line :: "str \<Rightarrow> str"

text \<open>
  The file name \<open>language + "_part_{0:0=3d}".format(i) + ".txt"\<close> inside the folder, for
  the indices \<open>i < 1000\<close> of the loop (three digits).
\<close>

definition digits3 :: "nat \<Rightarrow> str" where
  "digits3 i = [48 + i div 100, 48 + i div 10 mod 10, 48 + i mod 10]"

definition part_name :: "str \<Rightarrow> nat \<Rightarrow> str" where
  "part_name lang i = lang @ py_str ''_part_'' @ digits3 i @ py_str ''.txt''"

text \<open>
  \<open>pre_process_chunk\<close>: the normalised block, then the loop over \<open>range(1000)\<close> that
  writes it to the first name that does not exist and breaks. \<open>open(fn, 'w')\<close> in a
  folder that does not exist raises \<open>FileNotFoundError\<close>. Nothing follows the loop.
\<close>

definition chunk_text :: "(str \<Rightarrow> str) \<Rightarrow> str \<Rightarrow> str" where
  "chunk_text normalise chunk = concat (map (\<lambda>line. normalise line @ [10]) (splitlines chunk))"

fun write_first_free :: "str \<Rightarrow> str \<Rightarrow> store \<Rightarrow> nat list \<Rightarrow> py_error + store" where
  "write_first_free lang block st [] = Inr st"
| "write_first_free lang block st (i # is) =
     (case dest st of
        None \<Rightarrow> Inl FileNotFoundError
      | Some d \<Rightarrow>
          if d (part_name lang i) = None
          then Inr (st\<lparr>dest := Some (d(part_name lang i \<mapsto> block)),
                       trace := trace st @ [Write (part_name lang i)]\<rparr>)
          else write_first_free lang block st is)"

definition pre_process_chunk :: "config \<Rightarrow> store \<Rightarrow> str \<Rightarrow> py_error + store" where
  "pre_process_chunk cfg st chunk =
     write_first_free (language cfg) (chunk_text (pre_process_line cfg) chunk) st [0 ..< 1000]"

text \<open>
  \<open>pool.imap(self.pre_process_chunk, self.generate_chunk(filename))\<close>, the chunks taken
  one after the other: an exception of a worker, or the one that ends the generator,
  reaches the loop of \<open>pre_process_resource\<close>.
\<close>

fun write_chunks :: "config \<Rightarrow> str list \<Rightarrow> store \<Rightarrow> py_error option \<times> store" where
  "write_chunks cfg [] st = (None, st)"
| "write_chunks cfg (c # cs) st =
     (case pre_process_chunk cfg st c of
        Inl e \<Rightarrow> (Some e, st)
      | Inr st' \<Rightarrow> write_chunks cfg cs st')"

text \<open>
  \<open>self.file_size / self.chunk_size > 500\<close> for a chunk size that is not zero. The true
  division of two Python ints is the double nearest to the exact quotient, a tie going
  to the even significand. The doubles next to each other here are \<open>500\<close>, whose
  significand is even, and \<open>500 + 2^-44\<close>: the float is above \<open>500\<close> exactly when the
  exact quotient is above their midpoint \<open>500 + 2^-45\<close>. The sizes are those of
  \<open>os.path.getsize\<close>, far below the range in which the division overflows.
\<close>

definition quotient_above_500 :: "nat \<Rightarrow> nat \<Rightarrow> bool" where
  "quotient_above_500 fsize csize \<longleftrightarrow> real fsize / real csize > 500 + 1 / 2 ^ 45"

text \<open>
  The loop over the raw files in \<open>pre_process_resource\<close>. The division by a chunk size
  of zero raises \<open>ZeroDivisionError\<close>. \<open>rmtree\<close> of a folder that does not exist raises
  \<open>FileNotFoundError\<close>.
\<close>

fun process_files :: "config \<Rightarrow> bytes list \<Rightarrow> store \<Rightarrow> py_error option \<times> store" where
  "process_files cfg [] st = (None, st)"
| "process_files cfg (f # fs) st =
     (if chunk_size cfg = 0 then (Some ZeroDivisionError, st)
      else if quotient_above_500 (length f) (chunk_size cfg) then
        (case dest st of
           None \<Rightarrow> (Some FileNotFoundError, st)
         | Some d \<Rightarrow> (Some ValueError, st\<lparr>dest := None, trace := trace st @ [Rmtree]\<rparr>))
      else
        (case generate_chunk (chunk_size cfg) f of
           (chunks, out) \<Rightarrow>
             (case write_chunks cfg chunks st of
                (Some e, st') \<Rightarrow> (Some e, st')
              | (None, st') \<Rightarrow>
                  (case out of
                     Raised e \<Rightarrow> (Some e, st')
                   | Exhausted overlap \<Rightarrow> process_files cfg fs st'))))"

text \<open>\<open>pre_process_resource\<close>; \<open>files\<close> holds the raw files that \<open>glob\<close> found.\<close>

definition pre_process_resource :: "config \<Rightarrow> bytes list \<Rightarrow> store \<Rightarrow> py_error option \<times> store" where
  "pre_process_resource cfg files st =
     (if files = [] then (Some FileNotFoundError, st)
      else process_files cfg files
             (if dest st = None
              then st\<lparr>dest := Some Map.empty, trace := trace st @ [Mkdir]\<rparr>
              else st))"


text \<open>
  The tables \<open>SpecificCollocate.process\<close> works on: one counter for every word of
  interest, each with \<open>TOTAL\<close> at least as large as any other count.
\<close>

definition table_ok :: "str list \<Rightarrow> table \<Rightarrow> bool" where
  "table_ok words t \<longleftrightarrow> dom t = set words \<and> (\<forall>w c. t w = Some c \<longrightarrow> total_dominates c)"

text \<open>A destination folder in which all 1000 partition files of a language exist.\<close>

definition full_folder :: "str \<Rightarrow> str \<rightharpoonup> str" where
  "full_folder lang =
     (\<lambda>name. if name \<in> set (map (part_name lang) [0 ..< 1000]) then Some [] else None)"

declare chunk_loop.simps [simp del]
declare byte_windows.simps [simp del]

section \<open>Properties\<close>

subsection \<open>Loops and counters\<close>

lemma upt_2: "[0 ..< 2] = [0, Suc 0]"
  by (simp add: numeral_2_eq_2)

lemma for_each_inv:
  assumes "P s" and "\<And>s x. P s \<Longrightarrow> x \<in> set xs \<Longrightarrow> \<exists>s'. body s x = Inr s' \<and> P s'"
  shows "\<exists>s'. for_each body xs s = Inr s' \<and> P s'"
  using assms
proof (induction xs arbitrary: s)
  case Nil
  then show ?case by simp
next
  case (Cons x xs)
  from Cons.prems obtain s1 where s1: "body s x = Inr s1" "P s1" by fastforce
  have "\<exists>s'. for_each body xs s1 = Inr s' \<and> P s'"
    by (rule Cons.IH) (use s1 Cons.prems in auto)
  with s1 show ?case by simp
qed

lemma counter_get_incr:
  "counter_get (counter_incr c k) p = (if p = k then counter_get c k + 1 else counter_get c p)"
  by (simp add: counter_incr_def counter_get_def)

lemma counter_get_iadd:
  "counter_get (counter_iadd a b) k = max 0 (counter_get a k + counter_get b k)"
  by (simp add: counter_iadd_def keep_positive_def counter_get_def split: option.splits)

lemma positive_get_nonneg: "positive_counts c \<Longrightarrow> 0 \<le> counter_get c k"
  by (auto simp: positive_counts_def counter_get_def split: option.splits intro: less_imp_le)

lemma positive_lookup:
  "positive_counts c \<Longrightarrow> c k = (if 0 < counter_get c k then Some (counter_get c k) else None)"
  by (auto simp: positive_counts_def counter_get_def split: option.splits)

lemma positive_eqI:
  assumes "positive_counts a" "positive_counts b" "\<And>k. counter_get a k = counter_get b k"
  shows "a = b"
proof
  fix k
  show "a k = b k"
    using positive_lookup [OF assms(1), of k] positive_lookup [OF assms(2), of k] assms(3) [of k]
    by simp
qed

lemma positive_empty: "positive_counts Map.empty"
  by (simp add: positive_counts_def)

lemma positive_iadd: "positive_counts (counter_iadd a b)"
  by (auto simp: positive_counts_def counter_iadd_def keep_positive_def split: option.splits if_splits)

lemma positive_incr: "positive_counts c \<Longrightarrow> positive_counts (counter_incr c k)"
  using positive_get_nonneg [of c k]
  by (auto simp: positive_counts_def counter_incr_def)

lemma get_iadd_positive:
  "positive_counts a \<Longrightarrow> positive_counts b \<Longrightarrow>
   counter_get (counter_iadd a b) k = counter_get a k + counter_get b k"
  using positive_get_nonneg [of a k] positive_get_nonneg [of b k]
  by (simp add: counter_get_iadd)

lemma counter_iadd_commute: "counter_iadd a b = counter_iadd b a"
  by (rule positive_eqI) (simp_all add: positive_iadd counter_get_iadd add.commute)

lemma counter_iadd_assoc:
  assumes "positive_counts a" "positive_counts b" "positive_counts c"
  shows "counter_iadd (counter_iadd a b) c = counter_iadd a (counter_iadd b c)"
  by (rule positive_eqI) (simp_all add: positive_iadd get_iadd_positive assms)

lemma counter_iadd_empty_right: "positive_counts a \<Longrightarrow> counter_iadd a Map.empty = a"
  by (rule positive_eqI) (simp_all add: positive_iadd get_iadd_positive positive_empty, simp add: counter_get_def)

lemma get_foldl_iadd:
  assumes "positive_counts acc" "\<forall>c \<in> set cs. positive_counts c"
  shows "counter_get (foldl counter_iadd acc cs) k
           = counter_get acc k + sum_list (map (\<lambda>c. counter_get c k) cs)"
  using assms
proof (induction cs arbitrary: acc)
  case Nil
  then show ?case by simp
next
  case (Cons c cs)
  have "counter_get (foldl counter_iadd (counter_iadd acc c) cs) k
          = counter_get (counter_iadd acc c) k + sum_list (map (\<lambda>c. counter_get c k) cs)"
    by (rule Cons.IH) (use Cons.prems positive_iadd in auto)
  then show ?case using Cons.prems by (simp add: get_iadd_positive)
qed

lemma positive_foldl_iadd:
  "positive_counts acc \<Longrightarrow> positive_counts (foldl counter_iadd acc cs)"
  by (induction cs arbitrary: acc) (simp_all add: positive_iadd)

lemma positive_merge: "positive_counts (frequency_merge cs)"
  by (simp add: frequency_merge_def positive_foldl_iadd positive_empty)

lemma get_merge:
  "\<forall>c \<in> set cs. positive_counts c \<Longrightarrow>
   counter_get (frequency_merge cs) k = sum_list (map (\<lambda>c. counter_get c k) cs)"
  by (simp add: frequency_merge_def get_foldl_iadd positive_empty) (simp add: counter_get_def)

lemma sum_list_perm:
  fixes f :: "'a \<Rightarrow> int"
  assumes "mset xs = mset ys"
  shows "sum_list (map f xs) = sum_list (map f ys)"
proof -
  have "mset (map f xs) = mset (map f ys)" using assms by simp
  then have "sum_mset (mset (map f xs)) = sum_mset (mset (map f ys))" by simp
  then show ?thesis by (simp only: sum_mset_sum_list)
qed

lemma merge_perm:
  assumes "\<forall>c \<in> set xs. positive_counts c" "mset xs = mset ys"
  shows "frequency_merge xs = frequency_merge ys"
proof (rule positive_eqI)
  fix k
  have ys: "\<forall>c \<in> set ys. positive_counts c"
    using assms by (metis mset_eq_setD)
  show "counter_get (frequency_merge xs) k = counter_get (frequency_merge ys) k"
    by (simp add: get_merge assms(1) ys sum_list_perm [OF assms(2)])
qed (rule positive_merge)+

lemma positive_reduce: "positive_counts c \<Longrightarrow> positive_counts (reduce_count t c)"
  by (auto simp: positive_counts_def reduce_count_def split: option.splits if_splits)

lemma get_reduce_le: "positive_counts c \<Longrightarrow> counter_get (reduce_count t c) k \<le> counter_get c k"
  using positive_get_nonneg [of c k]
  by (auto simp: reduce_count_def counter_get_def split: option.splits)

lemma positive_foldl_incr:
  "positive_counts c \<Longrightarrow> positive_counts (foldl counter_incr c ks)"
  by (induction ks arbitrary: c) (simp_all add: positive_incr)

lemma positive_frequency_count: "positive_counts (frequency_count l lns)"
proof -
  have "positive_counts c \<Longrightarrow>
    positive_counts (foldl (\<lambda>cnt line. foldl counter_incr cnt (generate_groups (split line) l)) c lns)" for c
    by (induction lns arbitrary: c) (simp_all add: positive_foldl_incr)
  then show ?thesis by (simp add: frequency_count_def positive_empty)
qed

lemma sum_list_nonneg_zero:
  fixes f :: "'a \<Rightarrow> int"
  assumes "\<forall>x \<in> set xs. 0 \<le> f x" "sum_list (map f xs) = 0" "x \<in> set xs"
  shows "f x = 0"
  using assms
proof (induction xs)
  case Nil
  then show ?case by simp
next
  case (Cons y ys)
  have "0 \<le> sum_list (map f ys)" using Cons.prems(1) by (auto intro!: sum_list_nonneg)
  with Cons show ?case by (auto simp: add_nonneg_eq_0_iff)
qed

lemma pruned_merge_le:
  assumes "\<forall>c \<in> set cs. positive_counts c"
  shows "counter_get (frequency_merge (map (reduce_count t) cs)) k \<le> counter_get (frequency_merge cs) k"
proof -
  have "sum_list (map (\<lambda>c. counter_get c k) (map (reduce_count t) cs)) \<le> sum_list (map (\<lambda>c. counter_get c k) cs)"
    unfolding map_map comp_def
    by (rule sum_list_mono) (use assms get_reduce_le in auto)
  then show ?thesis using assms by (simp add: get_merge positive_reduce)
qed

lemma pruned_merge_absent:
  assumes pos: "\<forall>c \<in> set cs. positive_counts c"
    and none: "frequency_merge (map (reduce_count t) cs) k = None"
    and c: "c \<in> set cs" "c k = Some v"
  shows "v \<le> t"
proof (rule ccontr)
  assume "\<not> v \<le> t"
  with c pos have "0 < counter_get (reduce_count t c) k"
    by (auto simp: reduce_count_def counter_get_def positive_counts_def)
  moreover have "counter_get (frequency_merge (map (reduce_count t) cs)) k = 0"
    using none by (simp add: counter_get_def)
  then have "sum_list (map (\<lambda>c. counter_get (reduce_count t c) k) cs) = 0"
    using pos by (simp add: get_merge positive_reduce comp_def)
  then have "counter_get (reduce_count t c) k = 0"
    by (rule sum_list_nonneg_zero [rotated]) (use pos c positive_reduce positive_get_nonneg in auto)
  ultimately show False by simp
qed

lemma for_each_merge_word:
  assumes "distinct ws" "set ws \<subseteq> dom master" "set ws \<subseteq> dom cnt"
  shows "for_each (merge_word cnt) ws master
           = Inr (\<lambda>w. if w \<in> set ws then Some (counter_iadd (the (master w)) (the (cnt w)))
                       else master w)"
  using assms
proof (induction ws arbitrary: master)
  case Nil
  then show ?case by simp
next
  case (Cons w ws)
  from Cons.prems obtain m c where m: "master w = Some m" and c: "cnt w = Some c"
    by auto
  let ?master = "master(w \<mapsto> counter_iadd m c)"
  have step: "merge_word cnt master w = Inr ?master"
    by (simp add: merge_word_def m c)
  have "for_each (merge_word cnt) ws ?master
          = Inr (\<lambda>x. if x \<in> set ws then Some (counter_iadd (the (?master x)) (the (cnt x)))
                      else ?master x)"
    by (rule Cons.IH) (use Cons.prems in auto)
  also have "(\<lambda>x. if x \<in> set ws then Some (counter_iadd (the (?master x)) (the (cnt x)))
                      else ?master x)
       = (\<lambda>x. if x \<in> set (w # ws) then Some (counter_iadd (the (master x)) (the (cnt x)))
                      else master x)"
    using Cons.prems(1) m c by (auto simp: fun_eq_iff)
  finally have "for_each (merge_word cnt) ws ?master
       = Inr (\<lambda>x. if x \<in> set (w # ws) then Some (counter_iadd (the (master x)) (the (cnt x)))
                      else master x)" .
  then show ?case by (simp only: for_each.simps step sum.case)
qed

lemma merge_one_table:
  assumes "dom master = set words" "dom cnt = set words"
  shows "for_each (merge_word cnt) (rev (remdups (rev words))) master
           = Inr (\<lambda>w. if w \<in> set words then Some (counter_iadd (the (master w)) (the (cnt w)))
                       else None)"
proof -
  have "for_each (merge_word cnt) (rev (remdups (rev words))) master
          = Inr (\<lambda>w. if w \<in> set (rev (remdups (rev words)))
                      then Some (counter_iadd (the (master w)) (the (cnt w))) else master w)"
    by (rule for_each_merge_word) (use assms in auto)
  also have "(\<lambda>w. if w \<in> set (rev (remdups (rev words)))
                      then Some (counter_iadd (the (master w)) (the (cnt w))) else master w)
      = (\<lambda>w. if w \<in> set words then Some (counter_iadd (the (master w)) (the (cnt w)))
                       else None)"
    using assms(1) by (auto simp: fun_eq_iff)
  finally show ?thesis .
qed

lemma merge_all_tables:
  assumes "dom master = set words" "\<forall>t \<in> set ts. dom t = set words"
  shows "for_each (\<lambda>master cnt. for_each (merge_word cnt) (rev (remdups (rev words))) master) ts master
           = Inr (\<lambda>w. if w \<in> set words
                       then Some (foldl counter_iadd (the (master w)) (map (\<lambda>t. the (t w)) ts))
                       else None)"
  using assms
proof (induction ts arbitrary: master)
  case Nil
  have "master x = Some (the (master x))" if "x \<in> set words" for x
    using that Nil.prems(1) by (metis domD option.sel)
  moreover have "master x = None" if "x \<notin> set words" for x
    using that Nil.prems(1) by (metis domIff)
  ultimately show ?case by (auto simp: fun_eq_iff)
next
  case (Cons t ts)
  let ?master = "\<lambda>w. if w \<in> set words then Some (counter_iadd (the (master w)) (the (t w))) else None"
  have step: "for_each (merge_word t) (rev (remdups (rev words))) master = Inr ?master"
    by (rule merge_one_table) (use Cons.prems in auto)
  have dom: "dom ?master = set words" by (auto split: if_splits)
  have "for_each (\<lambda>master cnt. for_each (merge_word cnt) (rev (remdups (rev words))) master) ts ?master
          = Inr (\<lambda>w. if w \<in> set words
                      then Some (foldl counter_iadd (the (?master w)) (map (\<lambda>t. the (t w)) ts))
                      else None)"
    by (rule Cons.IH [OF dom]) (use Cons.prems in auto)
  then show ?case using step by (auto simp: fun_eq_iff)
qed

lemma merge_tables_eq:
  assumes "\<forall>t \<in> set ts. dom t = set words"
  shows "merge_tables words ts
           = Inr (\<lambda>w. if w \<in> set words then Some (frequency_merge (map (\<lambda>t. the (t w)) ts))
                       else None)"
proof -
  have "dom (init_table words) = set words"
    by (auto simp: init_table_def split: if_splits)
  from merge_all_tables [OF this assms] show ?thesis
    by (auto simp: merge_tables_def frequency_merge_def init_table_def fun_eq_iff)
qed

lemma merge_tables_perm:
  assumes ok: "\<forall>t \<in> set ts. dom t = set words \<and> (\<forall>w c. t w = Some c \<longrightarrow> positive_counts c)"
    and perm: "mset ts = mset ts'"
  shows "merge_tables words ts = merge_tables words ts'"
proof -
  have ok': "\<forall>t \<in> set ts'. dom t = set words \<and> (\<forall>w c. t w = Some c \<longrightarrow> positive_counts c)"
    using ok perm by (metis mset_eq_setD)
  have "frequency_merge (map (\<lambda>t. the (t w)) ts) = frequency_merge (map (\<lambda>t. the (t w)) ts')"
    if "w \<in> set words" for w
  proof (rule merge_perm)
    show "\<forall>c \<in> set (map (\<lambda>t. the (t w)) ts). positive_counts c"
    proof
      fix c assume "c \<in> set (map (\<lambda>t. the (t w)) ts)"
      then obtain t where t: "t \<in> set ts" "c = the (t w)" by auto
      with ok that obtain c' where "t w = Some c'" by (metis domD)
      with t ok show "positive_counts c" by auto
    qed
    show "mset (map (\<lambda>t. the (t w)) ts) = mset (map (\<lambda>t. the (t w)) ts')"
      using perm by simp
  qed
  then show ?thesis
    using ok ok' by (simp add: merge_tables_eq fun_eq_iff)
qed

subsection \<open>TOTAL in the specific collocate tables\<close>

lemma total_dominates_incr_total:
  "total_dominates c \<Longrightarrow> total_dominates (counter_incr c (py_str ''TOTAL''))"
  unfolding total_dominates_def
proof
  fix q
  assume "\<forall>p. counter_get c p \<le> counter_get c (py_str ''TOTAL'')"
  then have "counter_get c q \<le> counter_get c (py_str ''TOTAL'')" by simp
  then show "counter_get (counter_incr c (py_str ''TOTAL'')) q
      \<le> counter_get (counter_incr c (py_str ''TOTAL'')) (py_str ''TOTAL'')"
    by (auto simp: counter_get_incr)
qed

lemma total_dominates_incr_both:
  assumes "total_dominates c"
  shows "total_dominates (counter_incr (counter_incr c (py_str ''TOTAL'')) p)"
  unfolding total_dominates_def
proof
  fix q
  have "counter_get c q \<le> counter_get c (py_str ''TOTAL'')"
       "counter_get c p \<le> counter_get c (py_str ''TOTAL'')"
    using assms by (simp_all add: total_dominates_def)
  then show "counter_get (counter_incr (counter_incr c (py_str ''TOTAL'')) p) q
      \<le> counter_get (counter_incr (counter_incr c (py_str ''TOTAL'')) p) (py_str ''TOTAL'')"
    by (auto simp: counter_get_incr)
qed

lemma total_dominates_iadd:
  assumes "total_dominates a" "total_dominates b"
  shows "total_dominates (counter_iadd a b)"
  unfolding total_dominates_def
proof
  fix q
  have "counter_get a q \<le> counter_get a (py_str ''TOTAL'')"
       "counter_get b q \<le> counter_get b (py_str ''TOTAL'')"
    using assms by (simp_all add: total_dominates_def)
  then show "counter_get (counter_iadd a b) q \<le> counter_get (counter_iadd a b) (py_str ''TOTAL'')"
    by (simp add: counter_get_iadd)
qed

lemma total_dominates_empty: "total_dominates Map.empty"
  by (simp add: total_dominates_def counter_get_def)

lemma table_ok_init: "table_ok words (init_table words)"
  by (auto simp: table_ok_def init_table_def total_dominates_empty split: if_splits)

lemma specific_visit_ok:
  assumes "table_ok words t"
  shows "\<exists>t'. specific_visit words n line t i = Inr t' \<and> table_ok words t'"
proof (cases "line ! i \<in> set words")
  case False
  then show ?thesis using assms by (simp add: specific_visit_def)
next
  case True
  with assms obtain c where c: "t (line ! i) = Some c" and dc: "total_dominates c"
    unfolding table_ok_def by (metis domD)
  show ?thesis
  proof (cases "extract_phrase line i n")
    case (Inl e)
    then have "e = IndexError" by (auto simp: extract_phrase_def Let_def split: if_splits)
    with Inl True c assms dc show ?thesis
      by (auto simp: specific_visit_def Let_def table_ok_def total_dominates_incr_total)
  next
    case (Inr phrase)
    with True c assms dc show ?thesis
      by (auto simp: specific_visit_def Let_def table_ok_def total_dominates_incr_both)
  qed
qed

lemma specific_process_line_ok:
  assumes "table_ok words t"
  shows "\<exists>t'. specific_process_line t line words n = Inr t' \<and> table_ok words t'"
  unfolding specific_process_line_def Let_def
  by (rule for_each_inv [where P = "table_ok words"]) (use assms specific_visit_ok in auto)

lemma specific_process_ok:
  "\<exists>t. specific_process words n file = Inr t \<and> table_ok words t"
  unfolding specific_process_def
  by (rule for_each_inv [where P = "table_ok words"]) (use table_ok_init specific_process_line_ok in auto)

lemma merge_word_ok:
  assumes "table_ok words cnt" "table_ok words master" "w \<in> set words"
  shows "\<exists>m'. merge_word cnt master w = Inr m' \<and> table_ok words m'"
proof -
  from assms obtain m c where m: "master w = Some m" "total_dominates m"
    and c: "cnt w = Some c" "total_dominates c"
    unfolding table_ok_def by (metis domD)
  then show ?thesis using assms
    by (auto simp: merge_word_def table_ok_def total_dominates_iadd)
qed

lemma merge_tables_ok:
  assumes "\<forall>t \<in> set counts. table_ok words t"
  shows "\<exists>m. merge_tables words counts = Inr m \<and> table_ok words m"
  unfolding merge_tables_def
proof (rule for_each_inv [where P = "table_ok words"])
  show "table_ok words (init_table words)" by (rule table_ok_init)
next
  fix s x assume "table_ok words s" "x \<in> set counts"
  then have "table_ok words x" using assms by simp
  show "\<exists>s'. for_each (merge_word x) (rev (remdups (rev words))) s = Inr s' \<and> table_ok words s'"
    by (rule for_each_inv [where P = "table_ok words"])
       (use \<open>table_ok words s\<close> \<open>table_ok words x\<close> merge_word_ok in auto)
qed

subsection \<open>Tag pairs\<close>

lemma dom_pos_count_pair: "dom (pos_count_pair tab pr) = dom tab"
  by (auto simp: pos_count_pair_def split: option.splits if_splits)

lemma dom_foldl_pairs: "dom (foldl pos_count_pair tab prs) = dom tab"
  by (induction prs arbitrary: tab) (simp_all add: dom_pos_count_pair)

lemma foldl_foldl_concat: "foldl (\<lambda>a xs. foldl f a (g xs)) a xss = foldl f a (concat (map g xss))"
  by (induction xss arbitrary: a) simp_all

lemma pos_process_pairs:
  "pos_process tags tagger lns = foldl pos_count_pair (init_table tags) (pos_pairs tagger lns)"
  by (simp add: pos_process_def pos_pairs_def foldl_foldl_concat)

lemma get_foldl_pairs:
  "tab first = Some c \<Longrightarrow>
   \<exists>c'. foldl pos_count_pair tab prs first = Some c' \<and>
        counter_get c' second = counter_get c second + int (count_list prs (first, second))"
proof (induction prs arbitrary: tab c)
  case Nil
  then show ?case by simp
next
  case (Cons pr prs)
  obtain a b where pr: "pr = (a, b)" by (cases pr)
  show ?case
  proof (cases "a = first")
    case True
    have t: "pos_count_pair tab pr first = Some (counter_incr c b)"
      using Cons.prems pr True by (simp add: pos_count_pair_def)
    from Cons.IH [of "pos_count_pair tab pr" "counter_incr c b", OF t] show ?thesis
      using pr True by (auto simp: counter_get_incr)
  next
    case False
    have t: "pos_count_pair tab pr first = Some c"
      using Cons.prems pr False by (simp add: pos_count_pair_def split: option.splits)
    from Cons.IH [of "pos_count_pair tab pr" c, OF t] show ?thesis
      using pr False by auto
  qed
qed


subsection \<open>Decoding, splitting and the chunk loop\<close>


lemma utf8_decode_append:
  "utf8_decode a = Some x \<Longrightarrow> utf8_decode (a @ b) = map_option ((@) x) (utf8_decode b)"
proof (induction a arbitrary: x rule: utf8_decode.induct)
  case 1
  then show ?case by (simp add: option.map_ident)
next
  case (2 b0 bs)
  then show ?case
    by (cases "utf8_decode b") (auto simp: Let_def split: if_splits list.splits)
qed

lemma unpack2_rsplit_Inr:
  assumes "unpack2 (rsplit_newline s) = Inr (b, ov)"
  shows "s = b @ [10] @ ov \<and> 10 \<notin> set ov"
proof -
  from assms have nl: "10 \<in> set s"
    and b: "b = rev (tl (dropWhile (\<lambda>c. c \<noteq> 10) (rev s)))"
    and ov: "ov = rev (takeWhile (\<lambda>c. c \<noteq> 10) (rev s))"
    by (auto simp: unpack2_def rsplit_newline_def split: if_splits)
  from nl have "dropWhile (\<lambda>c. c \<noteq> 10) (rev s) \<noteq> []" by (simp add: dropWhile_eq_Nil_conv)
  then have "dropWhile (\<lambda>c. c \<noteq> 10) (rev s) = 10 # tl (dropWhile (\<lambda>c. c \<noteq> 10) (rev s))"
    using hd_dropWhile [of "\<lambda>c. c \<noteq> 10" "rev s"] by (cases "dropWhile (\<lambda>c. c \<noteq> 10) (rev s)") auto
  then have "rev s = rev ov @ 10 # rev b"
    using takeWhile_dropWhile_id [of "\<lambda>c. c \<noteq> 10" "rev s"] b ov by simp
  then have "rev (rev s) = rev (rev ov @ 10 # rev b)" by simp
  then have "s = b @ [10] @ ov" by simp
  moreover have "10 \<notin> set ov" using ov by (auto dest: set_takeWhileD)
  ultimately show ?thesis by simp
qed

lemma unpack2_rsplit_Inl:
  "unpack2 (rsplit_newline s) = Inl e \<longleftrightarrow> 10 \<notin> set s \<and> e = ValueError"
  by (auto simp: unpack2_def rsplit_newline_def split: list.splits)


lemma decoded_text_Nil: "decoded_text cs [] = []"
  by (simp add: decoded_text_def byte_windows.simps)

lemma decoded_text_step:
  "0 < cs \<Longrightarrow> bs \<noteq> [] \<Longrightarrow>
   decoded_text cs bs = (case utf8_decode (take cs bs) of None \<Rightarrow> [] | Some t \<Rightarrow> t)
                          @ decoded_text cs (drop cs bs)"
  by (subst decoded_text_def, subst byte_windows.simps) (simp add: decoded_text_def)

lemma chunk_loop_text:
  assumes "length res = fs - p" "10 \<notin> set overlap"
    and "chunk_loop cs fs p overlap res = (chunks, Exhausted ov)"
  shows "concat (map (\<lambda>c. c @ [10]) chunks) @ ov = overlap @ decoded_text cs res \<and> 10 \<notin> set ov"
  using assms
proof (induction cs fs p overlap res arbitrary: chunks rule: chunk_loop.induct)
  case (1 cs fs p overlap res)
  show ?case
  proof (cases "p \<le> fs")
    case False
    with "1.prems" show ?thesis
      by (simp add: chunk_loop.simps [of cs fs p] decoded_text_Nil)
  next
    case True
    define n where "n = (if fs - p < cs then fs - p else cs)"
    show ?thesis
    proof (cases "utf8_decode (take n res)")
      case None
      then have n0: "n \<noteq> 0" by (cases "n = 0") auto
      then have cs: "0 < cs" and res: "res \<noteq> []"
        using "1.prems"(1) by (auto simp: n_def split: if_splits)
      have tk: "take n res = take cs res" and dr: "drop n res = drop cs res"
        using "1.prems"(1) by (auto simp: n_def)
      have rec: "chunk_loop cs fs (p + cs) overlap (drop n res) = (chunks, Exhausted ov)"
        using "1.prems"(3) True None by (simp add: chunk_loop.simps [of cs fs p] n_def)
      have "concat (map (\<lambda>c. c @ [10]) chunks) @ ov = overlap @ decoded_text cs (drop n res)
              \<and> 10 \<notin> set ov"
        by (rule "1.IH"(1) [OF True n_def None _ _ rec])
           (use "1.prems" in \<open>auto simp: n_def\<close>)
      then show ?thesis
        using None by (simp add: decoded_text_step [OF cs res] tk dr [symmetric])
    next
      case (Some decoded)
      show ?thesis
      proof (cases "unpack2 (rsplit_newline (overlap @ decoded))")
        case (Inl e)
        with "1.prems"(3) True Some show ?thesis
          by (simp add: chunk_loop.simps [of cs fs p] n_def)
      next
        case (Inr x)
        obtain buffer overlap' where x: "x = (buffer, overlap')" by (cases x)
        from Inr x have sp: "overlap @ decoded = buffer @ [10] @ overlap'" "10 \<notin> set overlap'"
          using unpack2_rsplit_Inr by blast+
        obtain chunks' out where rec: "chunk_loop cs fs (p + cs) overlap' (drop n res) = (chunks', out)"
          by (cases "chunk_loop cs fs (p + cs) overlap' (drop n res)")
        from "1.prems"(3) True Some Inr x rec
        have ch: "chunks = buffer # chunks'" and out: "out = Exhausted ov"
          by (simp_all add: chunk_loop.simps [of cs fs p] n_def)
        have "decoded \<noteq> []" using sp "1.prems"(2)
          by (metis append_Nil2 in_set_conv_decomp append_Cons append_Nil)
        with Some have n0: "n \<noteq> 0" by (cases "n = 0") auto
        then have cs: "0 < cs" and res: "res \<noteq> []"
          using "1.prems"(1) by (auto simp: n_def split: if_splits)
        have tk: "take n res = take cs res" and dr: "drop n res = drop cs res"
          using "1.prems"(1) by (auto simp: n_def)
        have "concat (map (\<lambda>c. c @ [10]) chunks') @ ov = overlap' @ decoded_text cs (drop n res)
              \<and> 10 \<notin> set ov"
          by (rule "1.IH"(2) [OF True n_def Some Inr x [symmetric] _ _ _ ])
             (use "1.prems" sp rec out in \<open>auto simp: n_def\<close>)
        then show ?thesis
          using Some sp ch by (simp add: decoded_text_step [OF cs res] tk [symmetric] dr [symmetric])
      qed
    qed
  qed
qed

lemma decoded_text_whole:
  assumes "\<forall>w \<in> set (byte_windows cs bs). utf8_decode w \<noteq> None" "0 < cs"
  shows "utf8_decode bs = Some (decoded_text cs bs)"
  using assms
proof (induction cs bs rule: byte_windows.induct)
  case (1 cs bs)
  show ?case
  proof (cases "bs = []")
    case True
    then show ?thesis by (simp add: decoded_text_Nil)
  next
    case False
    with "1.prems" have w: "byte_windows cs bs = take cs bs # byte_windows cs (drop cs bs)"
      by (subst byte_windows.simps) simp
    with "1.prems" obtain t where t: "utf8_decode (take cs bs) = Some t" by auto
    have rest: "utf8_decode (drop cs bs) = Some (decoded_text cs (drop cs bs))"
      by (rule "1.IH") (use "1.prems" False w in auto)
    have "utf8_decode (take cs bs @ drop cs bs) = map_option ((@) t) (utf8_decode (drop cs bs))"
      by (rule utf8_decode_append [OF t])
    then show ?thesis
      using t rest "1.prems"(2) False by (simp add: decoded_text_step)
  qed
qed

lemma chunk_loop_multiple_raises:
  assumes "p \<le> fs" "cs dvd (fs - p)" "10 \<notin> set overlap"
  shows "snd (chunk_loop cs fs p overlap res) = Raised ValueError"
  using assms
proof (induction cs fs p overlap res rule: chunk_loop.induct)
  case (1 cs fs p overlap res)
  define n where "n = (if fs - p < cs then fs - p else cs)"
  have step: "n = cs \<and> p + cs \<le> fs \<and> cs dvd (fs - (p + cs))" if nz: "fs - p \<noteq> 0"
  proof -
    have le: "cs \<le> fs - p" using "1.prems"(2) by (rule dvd_imp_le) (use nz in simp)
    have "cs dvd (fs - p - cs)" using "1.prems"(2) by (rule dvd_diff_nat) simp
    then have "cs dvd (fs - (p + cs))" by (simp only: diff_diff_left)
    moreover have "n = cs" using le by (simp add: n_def)
    moreover have "p + cs \<le> fs" using le "1.prems"(1) by linarith
    ultimately show ?thesis by simp
  qed
  show ?case
  proof (cases "utf8_decode (take n res)")
    case None
    then have "n \<noteq> 0" by (cases "n = 0") auto
    then have nz: "fs - p \<noteq> 0" by (auto simp: n_def split: if_splits)
    have "snd (chunk_loop cs fs (p + cs) overlap (drop n res)) = Raised ValueError"
      using step [OF nz] "1.prems"(3)
      by (intro "1.IH"(1) [OF "1.prems"(1) n_def None]) simp_all
    then show ?thesis
      using "1.prems"(1) None by (simp add: chunk_loop.simps [of cs fs p] n_def)
  next
    case (Some decoded)
    show ?thesis
    proof (cases "unpack2 (rsplit_newline (overlap @ decoded))")
      case (Inl e)
      then have "e = ValueError" by (simp add: unpack2_rsplit_Inl)
      with Inl "1.prems"(1) Some show ?thesis
        by (simp add: chunk_loop.simps [of cs fs p] n_def)
    next
      case (Inr x)
      obtain buffer overlap' where x: "x = (buffer, overlap')" by (cases x)
      from Inr x have sp: "overlap @ decoded = buffer @ [10] @ overlap'" "10 \<notin> set overlap'"
        using unpack2_rsplit_Inr by blast+
      have "decoded \<noteq> []"
      proof
        assume "decoded = []"
        with sp(1) have "10 \<in> set overlap" by simp
        with "1.prems"(3) show False by simp
      qed
      with Some have "n \<noteq> 0" by (cases "n = 0") auto
      then have nz: "fs - p \<noteq> 0" by (auto simp: n_def split: if_splits)
      have "snd (chunk_loop cs fs (p + cs) overlap' (drop n res)) = Raised ValueError"
        using step [OF nz] sp(2)
        by (intro "1.IH"(2) [OF "1.prems"(1) n_def Some Inr x [symmetric]]) simp_all
      moreover obtain chunks' out' where
        "chunk_loop cs fs (p + cs) overlap' (drop n res) = (chunks', out')"
        by (cases "chunk_loop cs fs (p + cs) overlap' (drop n res)")
      ultimately show ?thesis
        using "1.prems"(1) Some Inr x
        by (simp add: chunk_loop.simps [of cs fs p] n_def)
    qed
  qed
qed

lemma generate_chunk_multiple_raises:
  "cs dvd length f \<Longrightarrow> snd (generate_chunk cs f) = Raised ValueError"
  unfolding generate_chunk_def by (rule chunk_loop_multiple_raises) simp_all

lemma chunk_loop_no_newline:
  assumes "p \<le> fs"
    and "utf8_decode (take (if fs - p < cs then fs - p else cs) res) = Some decoded"
    and "10 \<notin> set (overlap @ decoded)"
  shows "chunk_loop cs fs p overlap res = ([], Raised ValueError)"
proof -
  have "unpack2 (rsplit_newline (overlap @ decoded)) = Inl ValueError"
    using assms(3) unpack2_rsplit_Inl by blast
  with assms(1,2) show ?thesis
    by (simp add: chunk_loop.simps [of cs fs p])
qed

subsection \<open>The destination folder\<close>






lemma write_first_free_full:
  "dest st = Some d \<Longrightarrow> \<forall>i \<in> set is. d (part_name lang i) \<noteq> None \<Longrightarrow>
   write_first_free lang block st is = Inr st"
  by (induction "is") auto

lemma write_first_free_first:
  assumes "dest st = Some d" "d (part_name lang i) = None"
    and "\<forall>j \<in> set js. d (part_name lang j) \<noteq> None"
  shows "write_first_free lang block st (js @ i # ks)
           = Inr (st\<lparr>dest := Some (d(part_name lang i \<mapsto> block)),
                      trace := trace st @ [Write (part_name lang i)]\<rparr>)"
  using assms by (induction js) auto

lemma upt_split: "i < n \<Longrightarrow> [0 ..< n] = [0 ..< i] @ i # [Suc i ..< n]"
  by (metis upt_conv_Cons upt_add_eq_append le0 add.left_neutral le_add_diff_inverse less_imp_le)

lemma pre_process_chunk_dest:
  "pre_process_chunk cfg st c = Inr st' \<Longrightarrow> dest st \<noteq> None \<Longrightarrow> dest st' \<noteq> None"
proof -
  have "write_first_free lang block st is = Inr st' \<Longrightarrow> dest st \<noteq> None \<Longrightarrow> dest st' \<noteq> None"
    for lang block "is"
    by (induction "is") (auto split: option.splits if_splits)
  then show "pre_process_chunk cfg st c = Inr st' \<Longrightarrow> dest st \<noteq> None \<Longrightarrow> dest st' \<noteq> None"
    unfolding pre_process_chunk_def by blast
qed

lemma pre_process_chunk_no_error:
  "dest st \<noteq> None \<Longrightarrow> \<exists>st'. pre_process_chunk cfg st c = Inr st'"
proof -
  have "dest st \<noteq> None \<Longrightarrow> \<exists>st'. write_first_free lang block st is = Inr st'" for lang block "is"
    by (induction "is") (auto split: option.splits if_splits)
  then show "dest st \<noteq> None \<Longrightarrow> \<exists>st'. pre_process_chunk cfg st c = Inr st'"
    unfolding pre_process_chunk_def by blast
qed

lemma write_chunks_ok:
  "dest st \<noteq> None \<Longrightarrow> \<exists>st'. write_chunks cfg cs st = (None, st') \<and> dest st' \<noteq> None"
proof (induction cs arbitrary: st)
  case Nil
  then show ?case by simp
next
  case (Cons c cs)
  from pre_process_chunk_no_error [OF Cons.prems] obtain st1
    where st1: "pre_process_chunk cfg st c = Inr st1" by blast
  have "dest st1 \<noteq> None" using st1 Cons.prems by (rule pre_process_chunk_dest)
  from Cons.IH [OF this] st1 show ?case by simp
qed



subsection \<open>Runs on concrete inputs\<close>

lemma py_str_eq_iff [simp]: "py_str s = py_str t \<longleftrightarrow> s = t"
  unfolding py_str_def by (rule inj_map_eq_map) (simp add: inj_on_def)

lemma py_str_Nil_iff [simp]: "py_str s = [] \<longleftrightarrow> s = []" "[] = py_str s \<longleftrightarrow> s = []"
  by (auto simp: py_str_def)

lemma split_aab: "split (py_str ''a a b'') = [py_str ''a'', py_str ''a'', py_str ''b'']"
  by (simp add: split_def py_str_def is_space_def)

lemma split_abc: "split (py_str ''a b c'') = [py_str ''a'', py_str ''b'', py_str ''c'']"
  by (simp add: split_def py_str_def is_space_def)

lemma count_aab: "frequency_count 1 [py_str ''a a b''] = [py_str ''a'' \<mapsto> 2]"
  by (simp add: frequency_count_def split_aab generate_groups_def upt_2 py_slice_def
        counter_incr_def counter_get_def)

lemma count_abc: "frequency_count 1 [py_str ''a b c''] = [py_str ''a'' \<mapsto> 1, py_str ''b'' \<mapsto> 1]"
  by (simp add: frequency_count_def split_abc generate_groups_def upt_2 py_slice_def
        counter_incr_def counter_get_def)

lemma split_fox_line:
  "split (py_str ''the quick brown fox jumps high'')
     = [py_str ''the'', py_str ''quick'', py_str ''brown'', py_str ''fox'', py_str ''jumps'', py_str ''high'']"
  by (simp add: split_def py_str_def is_space_def)

lemma split_the_line:
  "split (py_str ''the quick brown fox jumps over the lazy dog'')
     = [py_str ''the'', py_str ''quick'', py_str ''brown'', py_str ''fox'', py_str ''jumps'',
        py_str ''over'', py_str ''the'', py_str ''lazy'', py_str ''dog'']"
  by (simp add: split_def py_str_def is_space_def)

lemma split_fox_jumps: "split (py_str ''fox jumps'') = [py_str ''fox'', py_str ''jumps'']"
  by (simp add: split_def py_str_def is_space_def)

lemma split_the_fox_jumps:
  "split (py_str ''the fox jumps'') = [py_str ''the'', py_str ''fox'', py_str ''jumps'']"
  by (simp add: split_def py_str_def is_space_def)

lemma docstring_line_counts:
  "specific_process_line (init_table [py_str ''the''])
      (py_str ''the quick brown fox jumps over the lazy dog'') [py_str ''the''] 2
     = Inr [py_str ''the'' \<mapsto> [py_str ''TOTAL'' \<mapsto> 2]]"
  by (simp add: specific_process_line_def split_the_line upt_rec)
     (simp add: Let_def specific_visit_def init_table_def extract_phrase_def counter_incr_def
        counter_get_def fun_eq_iff)

lemma backward_window_at_start:
  "specific_process_line (init_table [py_str ''fox'']) (py_str ''fox jumps'') [py_str ''fox''] (- 1)
     = Inr [py_str ''fox'' \<mapsto> [py_str ''TOTAL'' \<mapsto> 1, [] \<mapsto> 1]]"
  by (simp add: specific_process_line_def split_fox_jumps upt_rec)
     (simp add: Let_def specific_visit_def init_table_def extract_phrase_def counter_incr_def
        counter_get_def py_slice_def fun_eq_iff)

lemma general_windows_short_line:
  "general_process_line (init_table [py_str ''fox'']) (py_str ''the fox jumps'') [py_str ''fox'']
     = Inr [py_str ''fox'' \<mapsto> [[] \<mapsto> 1, py_str ''the'' \<mapsto> 1]]"
  by (simp add: general_process_line_def split_the_fox_jumps upt_rec)
     (simp add: Let_def general_visit_def general_offset_def init_table_def extract_phrase_def
        counter_incr_def counter_get_def py_slice_def fun_eq_iff)

lemma split_dog_barks: "split (py_str ''dog barks'') = [py_str ''dog'', py_str ''barks'']"
  by (simp add: split_def py_str_def is_space_def)

lemma pairs_dog_barks:
  "pos_generate_groups (table_tagger [(py_str ''dog'', py_str ''NN'')] (py_str ''XX''))
      [py_str ''dog'', py_str ''barks''] = [(py_str ''NN'', py_str ''XX'')]"
  by (simp add: pos_generate_groups_def table_tagger_def py_str_def)

lemma pre_process_chunk_at:
  assumes "dest st = Some d" "i < 1000" "d (part_name (language cfg) i) = None"
    and "\<forall>j<i. d (part_name (language cfg) j) \<noteq> None"
  shows "pre_process_chunk cfg st chunk
           = Inr (st\<lparr>dest := Some (d(part_name (language cfg) i
                                         \<mapsto> chunk_text (pre_process_line cfg) chunk)),
                      trace := trace st @ [Write (part_name (language cfg) i)]\<rparr>)"
  unfolding pre_process_chunk_def upt_split [OF assms(2)]
  by (rule write_first_free_first) (use assms in auto)

lemma pre_process_chunk_full:
  assumes "dest st = Some d" "\<forall>i<1000. d (part_name (language cfg) i) \<noteq> None"
  shows "pre_process_chunk cfg st chunk = Inr st"
  unfolding pre_process_chunk_def
  by (rule write_first_free_full) (use assms in auto)

lemma full_folder_full: "i < 1000 \<Longrightarrow> full_folder lang (part_name lang i) \<noteq> None"
  by (simp add: full_folder_def)

lemma part_name_en_0: "part_name (py_str ''en'') 0 = py_str ''en_part_000.txt''"
  by (simp add: part_name_def digits3_def py_str_def)

lemma part_name_en_1: "part_name (py_str ''en'') (Suc 0) = py_str ''en_part_001.txt''"
  by (simp add: part_name_def digits3_def py_str_def)

lemma chunk_text_a: "chunk_text id (py_str ''a'') = py_str ''a'' @ [10]"
  by (simp add: chunk_text_def splitlines_def py_str_def is_linebreak_def)

lemma generate_a_nl_b:
  "generate_chunk 5 [0x61, 0x0A, 0x62] = ([py_str ''a''], Exhausted (py_str ''b''))"
  by (simp add: generate_chunk_def chunk_loop.simps unpack2_def rsplit_newline_def py_str_def)


lemma generate_two_lines:
  "generate_chunk 3 [0x61, 0x0A, 0x62, 0x0A] = ([py_str ''a'', py_str ''b''], Exhausted [])"
  by (simp add: generate_chunk_def chunk_loop.simps unpack2_def rsplit_newline_def py_str_def)

lemma windows_two_lines:
  "byte_windows 3 [0x61, 0x0A, 0x62, 0x0A] = [[0x61, 0x0A, 0x62], [0x0A]]"
  by (simp add: byte_windows.simps)


lemma process_fox_line:
  "specific_process [py_str ''fox''] 1 [py_str ''the quick brown fox jumps high'']
     = Inr [py_str ''fox'' \<mapsto> [py_str ''TOTAL'' \<mapsto> 1, py_str ''jumps'' \<mapsto> 1]]"
  by (simp add: specific_process_def specific_process_line_def split_fox_line upt_rec)
     (simp add: Let_def specific_visit_def init_table_def extract_phrase_def counter_incr_def
        counter_get_def py_slice_def fun_eq_iff)

subsection \<open>The claims\<close>

text \<open>
  C1, as the code has it. Whenever \<open>generate_chunk\<close> runs until its loop condition fails,
  the chunks it yielded, each followed by a newline, and then the overlap the loop holds
  at that moment, are together exactly the text of the byte windows that decoded (the
  windows that failed to decode add nothing); when every window decodes this is the
  decoded file. That last overlap holds no newline and is not yielded: the chunks hold
  the lines that end in a newline, each once and in order, and the text after the last
  newline stays in \<open>overlap\<close>. What happens when the generator ends by an exception is
  left out here.
\<close>

theorem chunk_reconstruction:
  assumes "generate_chunk csize raw = (chunks, Exhausted overlap)"
  shows "concat (map (\<lambda>c. c @ [10]) chunks) @ overlap = decoded_text csize raw \<and>
         10 \<notin> set overlap \<and>
         ((\<forall>w \<in> set (byte_windows csize raw). utf8_decode w \<noteq> None) \<longrightarrow>
            utf8_decode raw = Some (decoded_text csize raw))"
proof -
  have loop: "chunk_loop csize (length raw) 0 [] raw = (chunks, Exhausted overlap)"
    using assms by (simp add: generate_chunk_def)
  have "concat (map (\<lambda>c. c @ [10]) chunks) @ overlap = [] @ decoded_text csize raw \<and>
        10 \<notin> set overlap"
    by (rule chunk_loop_text [OF _ _ loop]) simp_all
  moreover have "0 < csize"
  proof (rule ccontr)
    assume "\<not> 0 < csize"
    then have "chunk_loop csize (length raw) 0 [] raw = ([], Raised ValueError)"
      by (intro chunk_loop_no_newline [where decoded = "[]"]) simp_all
    with loop show False by simp
  qed
  ultimately show ?thesis using decoded_text_whole [of csize raw] by simp
qed

text \<open>
  C1, the statement above on the four bytes of "a", newline, "b", newline and a chunk
  size of 3: two windows, both decode, the chunks are "a" and "b" and the overlap at
  the end is empty.
\<close>

theorem chunk_reconstruction_witness:
  "generate_chunk 3 [0x61, 0x0A, 0x62, 0x0A] = ([py_str ''a'', py_str ''b''], Exhausted []) \<and>
   concat (map (\<lambda>c. c @ [10]) [py_str ''a'', py_str ''b'']) @ []
     = decoded_text 3 [0x61, 0x0A, 0x62, 0x0A] \<and>
   utf8_decode [0x61, 0x0A, 0x62, 0x0A] = Some (decoded_text 3 [0x61, 0x0A, 0x62, 0x0A]) \<and>
   decoded_text 3 [0x61, 0x0A, 0x62, 0x0A] = py_str ''a'' @ [10] @ py_str ''b'' @ [10]"
proof -
  have w: "\<forall>w \<in> set (byte_windows 3 [0x61, 0x0A, 0x62, 0x0A]). utf8_decode w \<noteq> None"
    by (simp add: windows_two_lines)
  from chunk_reconstruction [OF generate_two_lines] w
  have "concat (map (\<lambda>c. c @ [10]) [py_str ''a'', py_str ''b'']) @ []
          = decoded_text 3 [0x61, 0x0A, 0x62, 0x0A]"
    and "utf8_decode [0x61, 0x0A, 0x62, 0x0A] = Some (decoded_text 3 [0x61, 0x0A, 0x62, 0x0A])"
    by blast+
  then show ?thesis using generate_two_lines by simp
qed

text \<open>
  C1 as the specification states it fails: on the three bytes of "a", newline, "b" with
  a chunk size of 5 the file decodes, its lines are "a" and "b", and the generator
  yields the one chunk "a" and ends normally with "b" still in \<open>overlap\<close>. Nothing
  flushes the overlap: the line "b" is in no chunk.
\<close>

theorem chunk_overlap_not_flushed:
  "map_option splitlines (utf8_decode [0x61, 0x0A, 0x62]) = Some [py_str ''a'', py_str ''b''] \<and>
   generate_chunk 5 [0x61, 0x0A, 0x62] = ([py_str ''a''], Exhausted (py_str ''b'')) \<and>
   concat (map splitlines (fst (generate_chunk 5 [0x61, 0x0A, 0x62]))) = [py_str ''a'']"
  by (simp add: generate_a_nl_b) (simp add: splitlines_def is_linebreak_def py_str_def)

text \<open>
  C2. The claim (and the docstring of \<open>generate_groups\<close>) has one phrase for every
  starting index at which \<open>l\<close> tokens fit, that is \<open>len(line) - l + 1\<close> phrases, and for
  the tokens the, quick, brown, fox with \<open>l = 2\<close> the three phrases "the quick",
  "quick brown" and "brown fox". The code iterates over \<open>range(len(line) - l)\<close> and
  yields the first two only: the last window of a line is never produced.
\<close>

theorem generate_groups_docstring_example:
  "generate_groups [py_str ''the'', py_str ''quick'', py_str ''brown'', py_str ''fox''] 2
     = [py_str ''the quick'', py_str ''quick brown'']"
  by (simp add: generate_groups_def py_slice_def py_str_def upt_2)

text \<open>
  C3. Merging a list of counters with positive counts by \<open>+=\<close>, starting from the empty
  counter, gives the same counter for every permutation of the list. \<open>+=\<close> is commutative;
  on counters with positive counts it is associative and the empty counter is its
  identity. The same holds for the merge of the dictionaries of counters in the
  \<open>execute\<close> methods of the collocate and part-of-speech analyses, which also never
  raises when every partial result has the words as its keys.
\<close>

theorem counter_merge_order_independent:
  "((\<forall>c \<in> set xs. positive_counts c) \<longrightarrow> mset xs = mset ys \<longrightarrow>
       frequency_merge xs = frequency_merge ys) \<and>
   counter_iadd a b = counter_iadd b a \<and>
   (positive_counts a \<longrightarrow> positive_counts b \<longrightarrow> positive_counts c \<longrightarrow>
       counter_iadd (counter_iadd a b) c = counter_iadd a (counter_iadd b c)) \<and>
   (positive_counts a \<longrightarrow> counter_iadd a Map.empty = a \<and> counter_iadd Map.empty a = a) \<and>
   ((\<forall>t \<in> set ts. dom t = set words \<and> (\<forall>w c. t w = Some c \<longrightarrow> positive_counts c)) \<longrightarrow>
       mset ts = mset ts' \<longrightarrow>
       merge_tables words ts = merge_tables words ts' \<and> (\<exists>m. merge_tables words ts = Inr m))"
proof (intro conjI impI)
  assume "\<forall>c \<in> set xs. positive_counts c" "mset xs = mset ys"
  then show "frequency_merge xs = frequency_merge ys" by (rule merge_perm)
next
  show "counter_iadd a b = counter_iadd b a" by (rule counter_iadd_commute)
next
  assume "positive_counts a" "positive_counts b" "positive_counts c"
  then show "counter_iadd (counter_iadd a b) c = counter_iadd a (counter_iadd b c)"
    by (rule counter_iadd_assoc)
next
  assume "positive_counts a"
  then show "counter_iadd a Map.empty = a" by (rule counter_iadd_empty_right)
next
  assume "positive_counts a"
  then have "counter_iadd a Map.empty = a" by (rule counter_iadd_empty_right)
  then show "counter_iadd Map.empty a = a" by (simp add: counter_iadd_commute)
next
  assume "\<forall>t \<in> set ts. dom t = set words \<and> (\<forall>w c. t w = Some c \<longrightarrow> positive_counts c)"
    "mset ts = mset ts'"
  then show "merge_tables words ts = merge_tables words ts'" by (rule merge_tables_perm)
next
  assume "\<forall>t \<in> set ts. dom t = set words \<and> (\<forall>w c. t w = Some c \<longrightarrow> positive_counts c)"
  then have "\<forall>t \<in> set ts. dom t = set words" by simp
  then show "\<exists>m. merge_tables words ts = Inr m" by (simp add: merge_tables_eq)
qed

text \<open>
  C3 on the counters {the: 2} and {the: 1, fox: 1}, and on two tables that hold them
  under the word "a".
\<close>

theorem counter_merge_order_independent_witness:
  "positive_counts [py_str ''the'' \<mapsto> 2] \<and>
   positive_counts [py_str ''the'' \<mapsto> 1, py_str ''fox'' \<mapsto> 1] \<and>
   frequency_merge [[py_str ''the'' \<mapsto> 2], [py_str ''the'' \<mapsto> 1, py_str ''fox'' \<mapsto> 1]]
     = frequency_merge [[py_str ''the'' \<mapsto> 1, py_str ''fox'' \<mapsto> 1], [py_str ''the'' \<mapsto> 2]] \<and>
   counter_iadd (counter_iadd [py_str ''the'' \<mapsto> 2] [py_str ''the'' \<mapsto> 1, py_str ''fox'' \<mapsto> 1])
       [py_str ''the'' \<mapsto> 2]
     = counter_iadd [py_str ''the'' \<mapsto> 2]
         (counter_iadd [py_str ''the'' \<mapsto> 1, py_str ''fox'' \<mapsto> 1] [py_str ''the'' \<mapsto> 2]) \<and>
   counter_iadd [py_str ''the'' \<mapsto> 2] Map.empty = [py_str ''the'' \<mapsto> 2] \<and>
   merge_tables [py_str ''a'']
       [[py_str ''a'' \<mapsto> [py_str ''the'' \<mapsto> 2]],
        [py_str ''a'' \<mapsto> [py_str ''the'' \<mapsto> 1, py_str ''fox'' \<mapsto> 1]]]
     = merge_tables [py_str ''a'']
       [[py_str ''a'' \<mapsto> [py_str ''the'' \<mapsto> 1, py_str ''fox'' \<mapsto> 1]],
        [py_str ''a'' \<mapsto> [py_str ''the'' \<mapsto> 2]]]"
proof -
  let ?A = "[py_str ''the'' \<mapsto> (2::int)]"
  let ?B = "[py_str ''the'' \<mapsto> (1::int), py_str ''fox'' \<mapsto> 1]"
  let ?TA = "[py_str ''a'' \<mapsto> ?A]"
  let ?TB = "[py_str ''a'' \<mapsto> ?B]"
  have pa: "positive_counts ?A" by (simp add: positive_counts_def)
  have pb: "positive_counts ?B" by (simp add: positive_counts_def)
  have h1: "\<forall>c \<in> set [?A, ?B]. positive_counts c" using pa pb by simp
  have h2: "mset [?A, ?B] = mset [?B, ?A]" by simp
  have h3: "\<forall>t \<in> set [?TA, ?TB]. dom t = set [py_str ''a''] \<and>
              (\<forall>w c. t w = Some c \<longrightarrow> positive_counts c)"
    using pa pb by (auto split: if_splits)
  have h4: "mset [?TA, ?TB] = mset [?TB, ?TA]" by simp
  from counter_merge_order_independent [where xs = "[?A, ?B]" and ys = "[?B, ?A]"
      and a = ?A and b = ?B and c = ?A and ts = "[?TA, ?TB]" and ts' = "[?TB, ?TA]"
      and words = "[py_str ''a'']"] pa pb h1 h2 h3 h4
  show ?thesis by blast
qed

text \<open>
  C4. The claim has a window counted exactly when all its positions are inside the
  line, and nothing counted otherwise. The range checks of the code compare \<open>i - neg\<close>
  with \<open>0\<close> and \<open>i + pos\<close> with \<open>len(line) - 1\<close>, which is neither. With \<open>n = 2\<close> and the
  word "the", the sentence of the class docstring gives \<open>TOTAL\<close> = 2 and no window at
  all, where the docstring has "quick brown" and "lazy dog": a forward window is
  dropped when the anchor is the first token and when the window ends at the last
  token. With \<open>n = -1\<close> an anchor at the start of the line passes both checks, the slice
  \<open>line[-1:0]\<close> is empty and the empty phrase is counted. The general analysis has the
  same block: for "the fox jumps" it counts "the" and the empty phrase, and not "jumps".
\<close>

theorem collocate_windows_at_line_ends:
  "specific_process_line (init_table [py_str ''the''])
      (py_str ''the quick brown fox jumps over the lazy dog'') [py_str ''the''] 2
     = Inr [py_str ''the'' \<mapsto> [py_str ''TOTAL'' \<mapsto> 2]] \<and>
   specific_process_line (init_table [py_str ''fox'']) (py_str ''fox jumps'') [py_str ''fox''] (- 1)
     = Inr [py_str ''fox'' \<mapsto> [py_str ''TOTAL'' \<mapsto> 1, [] \<mapsto> 1]] \<and>
   general_process_line (init_table [py_str ''fox'']) (py_str ''the fox jumps'') [py_str ''fox'']
     = Inr [py_str ''fox'' \<mapsto> [[] \<mapsto> 1, py_str ''the'' \<mapsto> 1]]"
  by (simp only: docstring_line_counts backward_window_at_start general_windows_short_line simp_thms)

text \<open>
  C5. \<open>reduce_count\<close> keeps exactly the keys whose count is above the threshold, with
  their counts. For the partial counts of any list of partition files: a key of the
  merged reduced counts has there a count that is at most its count in the merge of
  the counts that were not reduced, and a key that is missing from the merged reduced
  counts has a count of at most the threshold in every partition file that counts it.
\<close>

theorem reduce_count_lower_bound:
  "dom (reduce_count thresh cnt) = {key. \<exists>c. cnt key = Some c \<and> thresh < c} \<and>
   (key \<in> dom (reduce_count thresh cnt) \<longrightarrow> reduce_count thresh cnt key = cnt key) \<and>
   (frequency_merge (map (frequency_process l thresh) pool) key = Some v \<longrightarrow>
      v \<le> counter_get (frequency_merge (map (frequency_count l) pool)) key) \<and>
   (frequency_merge (map (frequency_process l thresh) pool) key = None \<longrightarrow>
      (\<forall>lns \<in> set pool. \<forall>c. frequency_count l lns key = Some c \<longrightarrow> c \<le> thresh))"
proof (intro conjI impI ballI allI)
  show "dom (reduce_count thresh cnt) = {key. \<exists>c. cnt key = Some c \<and> thresh < c}"
    by (auto simp: reduce_count_def split: option.splits if_splits)
next
  assume "key \<in> dom (reduce_count thresh cnt)"
  then show "reduce_count thresh cnt key = cnt key"
    by (auto simp: reduce_count_def split: option.splits if_splits)
next
  have pos: "\<forall>c \<in> set (map (frequency_count l) pool). positive_counts c"
    by (simp add: positive_frequency_count)
  have pruned: "map (frequency_process l thresh) pool
                  = map (reduce_count thresh) (map (frequency_count l) pool)"
    by (simp add: frequency_process_def)
  {
    assume "frequency_merge (map (frequency_process l thresh) pool) key = Some v"
    then have "v = counter_get (frequency_merge (map (frequency_process l thresh) pool)) key"
      by (simp add: counter_get_def)
    also have "\<dots> \<le> counter_get (frequency_merge (map (frequency_count l) pool)) key"
      unfolding pruned by (rule pruned_merge_le [OF pos])
    finally show "v \<le> counter_get (frequency_merge (map (frequency_count l) pool)) key" .
  }
  {
    fix lns c
    assume none: "frequency_merge (map (frequency_process l thresh) pool) key = None"
      and lns: "lns \<in> set pool" and c: "frequency_count l lns key = Some c"
    have "frequency_count l lns \<in> set (map (frequency_count l) pool)" using lns by simp
    with pos none [unfolded pruned] show "c \<le> thresh"
      using c by (rule pruned_merge_absent)
  }
qed

text \<open>
  C5 on the partition files "a a b" and "a b c" with phrase length 1 and threshold 1:
  the key "a" is kept with 2 of its 3 occurrences counted, the key "b" is dropped.
\<close>

theorem reduce_count_lower_bound_witness:
  "py_str ''a'' \<in> dom (reduce_count 1 [py_str ''a'' \<mapsto> 2]) \<and>
   reduce_count 1 [py_str ''a'' \<mapsto> 2] (py_str ''a'') = Some 2 \<and>
   frequency_merge (map (frequency_process 1 1) [[py_str ''a a b''], [py_str ''a b c'']]) (py_str ''a'')
     = Some 2 \<and>
   2 \<le> counter_get (frequency_merge (map (frequency_count 1) [[py_str ''a a b''], [py_str ''a b c'']]))
          (py_str ''a'') \<and>
   frequency_merge (map (frequency_process 1 1) [[py_str ''a a b''], [py_str ''a b c'']]) (py_str ''b'')
     = None \<and>
   frequency_count 1 [py_str ''a b c''] (py_str ''b'') = Some 1 \<and> (1::int) \<le> 1"
proof -
  let ?pool = "[[py_str ''a a b''], [py_str ''a b c'']]"
  have d: "py_str ''a'' \<in> dom (reduce_count 1 [py_str ''a'' \<mapsto> 2])"
    by (simp add: reduce_count_def dom_def)
  have ma: "frequency_merge (map (frequency_process 1 1) ?pool) (py_str ''a'') = Some 2"
    by (simp add: frequency_merge_def frequency_process_def count_aab count_abc reduce_count_def
          counter_iadd_def keep_positive_def counter_get_def)
  have mb: "frequency_merge (map (frequency_process 1 1) ?pool) (py_str ''b'') = None"
    by (simp add: frequency_merge_def frequency_process_def count_aab count_abc reduce_count_def
          counter_iadd_def keep_positive_def counter_get_def)
  have cb: "frequency_count 1 [py_str ''a b c''] (py_str ''b'') = Some 1"
    by (simp add: count_abc)
  have inp: "[py_str ''a b c''] \<in> set ?pool" by simp
  from reduce_count_lower_bound [where thresh = 1 and cnt = "[py_str ''a'' \<mapsto> 2]"
      and key = "py_str ''a''" and l = 1 and pool = ?pool and v = 2] d ma
  have a: "reduce_count 1 [py_str ''a'' \<mapsto> 2] (py_str ''a'') = Some 2"
    "2 \<le> counter_get (frequency_merge (map (frequency_count 1) ?pool)) (py_str ''a'')"
    by simp_all
  from reduce_count_lower_bound [where thresh = 1 and cnt = "[py_str ''a'' \<mapsto> 2]"
      and key = "py_str ''b''" and l = 1 and pool = ?pool and v = 2] mb inp cb
  have b: "(1::int) \<le> 1" by blast
  from d a ma mb cb b show ?thesis by simp
qed




text \<open>
  C7, as the code has it. In an existing destination folder \<open>pre_process_chunk\<close> writes
  the normalised block to the first of the 1000 partition names that does not exist
  yet; when all 1000 exist it writes nothing, raises nothing and returns, leaving the
  folder as it was.
\<close>

theorem pre_process_chunk_first_free:
  assumes "dest st = Some d"
  shows "(i < 1000 \<longrightarrow> d (part_name (language cfg) i) = None \<longrightarrow>
            (\<forall>j<i. d (part_name (language cfg) j) \<noteq> None) \<longrightarrow>
            pre_process_chunk cfg st chunk
              = Inr (st\<lparr>dest := Some (d(part_name (language cfg) i
                                            \<mapsto> chunk_text (pre_process_line cfg) chunk)),
                         trace := trace st @ [Write (part_name (language cfg) i)]\<rparr>)) \<and>
         ((\<forall>i<1000. d (part_name (language cfg) i) \<noteq> None) \<longrightarrow>
            pre_process_chunk cfg st chunk = Inr st)"
  using pre_process_chunk_at [OF assms] pre_process_chunk_full [OF assms] by blast

text \<open>
  C7, the statement above on a folder that holds partition 000 only (the block goes to
  partition 001) and on a folder that holds all 1000 partitions.
\<close>

theorem pre_process_chunk_first_free_witness:
  "pre_process_chunk \<lparr>language = py_str ''en'', chunk_size = 5, pre_process_line = id\<rparr>
      \<lparr>dest = Some [py_str ''en_part_000.txt'' \<mapsto> []], trace = []\<rparr> (py_str ''a'')
     = Inr \<lparr>dest = Some [py_str ''en_part_000.txt'' \<mapsto> [], py_str ''en_part_001.txt'' \<mapsto> py_str ''a'' @ [10]],
            trace = [Write (py_str ''en_part_001.txt'')]\<rparr> \<and>
   pre_process_chunk \<lparr>language = py_str ''en'', chunk_size = 5, pre_process_line = id\<rparr>
      \<lparr>dest = Some (full_folder (py_str ''en'')), trace = []\<rparr> (py_str ''a'')
     = Inr \<lparr>dest = Some (full_folder (py_str ''en'')), trace = []\<rparr>"
proof -
  let ?cfg = "\<lparr>language = py_str ''en'', chunk_size = 5, pre_process_line = id\<rparr>"
  let ?d = "[py_str ''en_part_000.txt'' \<mapsto> []] :: str \<rightharpoonup> str"
  let ?st = "\<lparr>dest = Some ?d, trace = []\<rparr>"
  have 1: "dest ?st = Some ?d" by simp
  have 2: "(1::nat) < 1000" by simp
  have 3: "?d (part_name (language ?cfg) 1) = None" by (simp add: part_name_en_1)
  have 4: "\<forall>j<1. ?d (part_name (language ?cfg) j) \<noteq> None" by (simp add: part_name_en_0)
  have 5: "dest \<lparr>dest = Some (full_folder (py_str ''en'')), trace = []\<rparr>
             = Some (full_folder (py_str ''en''))" by simp
  have 6: "\<forall>i<1000. full_folder (py_str ''en'') (part_name (language ?cfg) i) \<noteq> None"
    by (simp add: full_folder_full)
  from pre_process_chunk_first_free [OF 1, where i = 1 and cfg = ?cfg and chunk = "py_str ''a''"]
    2 3 4
  have a: "pre_process_chunk ?cfg ?st (py_str ''a'')
     = Inr \<lparr>dest = Some [py_str ''en_part_000.txt'' \<mapsto> [], py_str ''en_part_001.txt'' \<mapsto> py_str ''a'' @ [10]],
            trace = [Write (py_str ''en_part_001.txt'')]\<rparr>"
    by (simp add: part_name_en_1 chunk_text_a)
  from pre_process_chunk_first_free [OF 5, where cfg = ?cfg and chunk = "py_str ''a''"] 6
  have b: "pre_process_chunk ?cfg \<lparr>dest = Some (full_folder (py_str ''en'')), trace = []\<rparr> (py_str ''a'')
     = Inr \<lparr>dest = Some (full_folder (py_str ''en'')), trace = []\<rparr>"
    by blast
  from a b show ?thesis by simp
qed

text \<open>
  C7 as the specification states it fails: with all 1000 partition files present the
  call returns normally, the folder and the trace of operations unchanged. No error is
  raised and the chunk is written nowhere.
\<close>

theorem pre_process_chunk_full_folder:
  "pre_process_chunk \<lparr>language = py_str ''en'', chunk_size = 5, pre_process_line = id\<rparr>
      \<lparr>dest = Some (full_folder (py_str ''en'')), trace = []\<rparr> (py_str ''a'')
     = Inr \<lparr>dest = Some (full_folder (py_str ''en'')), trace = []\<rparr>"
  by (rule pre_process_chunk_full [where d = "full_folder (py_str ''en'')"])
     (simp_all add: full_folder_full)

text \<open>
  C8, as the code has it. The keys of the dictionary \<open>process\<close> returns are the tags of
  the vocabulary. A pair whose first tag is no key of the dictionary leaves it as it
  is (the \<open>KeyError\<close> is swallowed). For a first tag of the vocabulary and any second
  tag, in the vocabulary or not, the count is the number of times the pair occurs in
  the partition file.
\<close>

theorem pos_matrix_rows:
  "dom (pos_process pos_tags pos_tag lns) = set pos_tags \<and>
   (first \<notin> dom tab \<longrightarrow> pos_count_pair tab (first, second) = tab) \<and>
   (first \<in> set pos_tags \<longrightarrow>
      (\<exists>c. pos_process pos_tags pos_tag lns first = Some c \<and>
           counter_get c second = int (count_list (pos_pairs pos_tag lns) (first, second))))"
proof (intro conjI impI)
  show "dom (pos_process pos_tags pos_tag lns) = set pos_tags"
    by (auto simp: pos_process_pairs dom_foldl_pairs init_table_def split: if_splits)
next
  assume "first \<notin> dom tab"
  then show "pos_count_pair tab (first, second) = tab"
    by (auto simp: pos_count_pair_def split: option.splits)
next
  assume "first \<in> set pos_tags"
  then have "init_table pos_tags first = Some Map.empty" by (simp add: init_table_def)
  from get_foldl_pairs [of "init_table pos_tags" first Map.empty "pos_pairs pos_tag lns" second, OF this]
  show "\<exists>c. pos_process pos_tags pos_tag lns first = Some c \<and>
           counter_get c second = int (count_list (pos_pairs pos_tag lns) (first, second))"
    by (simp add: pos_process_pairs counter_get_def)
qed

text \<open>
  C8, the statement above with the vocabulary NN, a tagger that gives "dog" the tag NN
  and every other word the tag XX, and the line "dog barks".
\<close>

theorem pos_matrix_rows_witness:
  "py_str ''ZZ'' \<notin> dom (init_table [py_str ''NN'']) \<and>
   pos_count_pair (init_table [py_str ''NN'']) (py_str ''ZZ'', py_str ''NN'') = init_table [py_str ''NN''] \<and>
   py_str ''NN'' \<in> set [py_str ''NN''] \<and>
   (\<exists>c. pos_process [py_str ''NN''] (table_tagger [(py_str ''dog'', py_str ''NN'')] (py_str ''XX''))
            [py_str ''dog barks''] (py_str ''NN'') = Some c \<and>
        counter_get c (py_str ''XX'') = 1)"
proof -
  have a: "py_str ''ZZ'' \<notin> dom (init_table [py_str ''NN''])"
    by (auto simp: init_table_def py_str_def split: if_splits)
  have b: "py_str ''NN'' \<in> set [py_str ''NN'']" by simp
  have c: "count_list (pos_pairs (table_tagger [(py_str ''dog'', py_str ''NN'')] (py_str ''XX''))
              [py_str ''dog barks'']) (py_str ''NN'', py_str ''XX'') = 1"
    by (simp add: pos_pairs_def split_dog_barks pairs_dog_barks)
  show ?thesis
    using pos_matrix_rows [where pos_tags = "[py_str ''NN'']"
        and pos_tag = "table_tagger [(py_str ''dog'', py_str ''NN'')] (py_str ''XX'')"
        and lns = "[py_str ''dog barks'']" and first = "py_str ''ZZ''"
        and tab = "init_table [py_str ''NN'']" and second = "py_str ''NN''"]
      pos_matrix_rows [where pos_tags = "[py_str ''NN'']"
        and pos_tag = "table_tagger [(py_str ''dog'', py_str ''NN'')] (py_str ''XX'')"
        and lns = "[py_str ''dog barks'']" and first = "py_str ''NN''"
        and second = "py_str ''XX''"] a b c
    by simp
qed

text \<open>
  C8 as the specification states it fails: with the vocabulary NN alone, the pair
  (NN, XX) of the line "dog barks" is counted, and XX, a tag outside the vocabulary,
  is a key of the counter of NN.
\<close>

theorem pos_unknown_second_counted:
  "pos_process [py_str ''NN''] (table_tagger [(py_str ''dog'', py_str ''NN'')] (py_str ''XX''))
      [py_str ''dog barks'']
     = [py_str ''NN'' \<mapsto> [py_str ''XX'' \<mapsto> 1]]
   \<and> py_str ''XX'' \<notin> set [py_str ''NN'']"
  by (simp add: pos_process_def split_dog_barks pairs_dog_barks)
     (auto simp: pos_count_pair_def init_table_def counter_incr_def counter_get_def py_str_def fun_eq_iff)

text \<open>
  C9. An iteration of the loop of \<open>generate_chunk\<close> whose window decodes and whose buffer
  (the overlap and the decoded window) holds no newline ends the generator with
  \<open>ValueError\<close>. The overlap \<open>rsplit\<close> leaves holds no newline. So for a file whose size
  is a multiple of the chunk size the generator always ends with \<open>ValueError\<close>, and
  \<open>pre_process_resource\<close> on such a file (the first raw file, with a positive chunk
  size) ends with \<open>ValueError\<close> too.
\<close>

theorem chunk_without_newline_raises:
  "(p \<le> file_size \<longrightarrow>
      utf8_decode (take (if file_size - p < csize then file_size - p else csize) resource)
        = Some decoded \<longrightarrow>
      10 \<notin> set (overlap @ decoded) \<longrightarrow>
      chunk_loop csize file_size p overlap resource = ([], Raised ValueError)) \<and>
   (unpack2 (rsplit_newline s) = Inr (buffer, overlap') \<longrightarrow> 10 \<notin> set overlap') \<and>
   (csize dvd length raw \<longrightarrow> snd (generate_chunk csize raw) = Raised ValueError) \<and>
   (0 < chunk_size cfg \<longrightarrow> chunk_size cfg dvd length raw \<longrightarrow>
      fst (pre_process_resource cfg (raw # rest) st) = Some ValueError)"
proof (intro conjI impI)
  assume "p \<le> file_size"
    "utf8_decode (take (if file_size - p < csize then file_size - p else csize) resource)
       = Some decoded"
    "10 \<notin> set (overlap @ decoded)"
  then show "chunk_loop csize file_size p overlap resource = ([], Raised ValueError)"
    by (rule chunk_loop_no_newline)
next
  assume "unpack2 (rsplit_newline s) = Inr (buffer, overlap')"
  then show "10 \<notin> set overlap'" using unpack2_rsplit_Inr by blast
next
  assume "csize dvd length raw"
  then show "snd (generate_chunk csize raw) = Raised ValueError"
    by (rule generate_chunk_multiple_raises)
next
  assume pos: "0 < chunk_size cfg" and dvd: "chunk_size cfg dvd length raw"
  define s1 where "s1 = (if dest st = None
                         then st\<lparr>dest := Some Map.empty, trace := trace st @ [Mkdir]\<rparr> else st)"
  have d: "dest s1 \<noteq> None" by (simp add: s1_def)
  have run: "pre_process_resource cfg (raw # rest) st = process_files cfg (raw # rest) s1"
    by (simp add: pre_process_resource_def s1_def del: process_files.simps)
  show "fst (pre_process_resource cfg (raw # rest) st) = Some ValueError"
  proof (cases "quotient_above_500 (length raw) (chunk_size cfg)")
    case True
    with pos d show ?thesis unfolding run by (auto split: option.splits)
  next
    case False
    obtain chunks out where g: "generate_chunk (chunk_size cfg) raw = (chunks, out)"
      by (cases "generate_chunk (chunk_size cfg) raw")
    with generate_chunk_multiple_raises [OF dvd] have out: "out = Raised ValueError" by simp
    from write_chunks_ok [OF d] obtain s2 where "write_chunks cfg chunks s1 = (None, s2)"
      by blast
    with False pos g out show ?thesis unfolding run by simp
  qed
qed

text \<open>
  C9 on a first window "ab" of a file of three bytes with chunk size 2, on the text
  "a", newline, "b", and on the two bytes of "a", newline with chunk size 2.
\<close>

theorem chunk_without_newline_raises_witness:
  "chunk_loop 2 3 0 [] [0x61, 0x62, 0x0A] = ([], Raised ValueError) \<and>
   unpack2 (rsplit_newline (py_str ''a'' @ [10] @ py_str ''b'')) = Inr (py_str ''a'', py_str ''b'') \<and>
   10 \<notin> set (py_str ''b'') \<and>
   snd (generate_chunk 2 [0x61, 0x0A]) = Raised ValueError \<and>
   fst (pre_process_resource \<lparr>language = py_str ''en'', chunk_size = 2, pre_process_line = id\<rparr>
          [[0x61, 0x0A]] \<lparr>dest = None, trace = []\<rparr>) = Some ValueError"
proof -
  let ?cfg = "\<lparr>language = py_str ''en'', chunk_size = 2, pre_process_line = id\<rparr>"
  have h1: "(0::nat) \<le> 3" by simp
  have h2: "utf8_decode (take (if 3 - 0 < (2::nat) then 3 - 0 else 2) [0x61, 0x62, 0x0A])
              = Some (py_str ''ab'')"
    by (simp add: py_str_def)
  have h3: "10 \<notin> set ([] @ py_str ''ab'')" by (simp add: py_str_def)
  have h4: "unpack2 (rsplit_newline (py_str ''a'' @ [10] @ py_str ''b''))
              = Inr (py_str ''a'', py_str ''b'')"
    by (simp add: unpack2_def rsplit_newline_def py_str_def)
  have h5: "(2::nat) dvd length [0x61 :: 8 word, 0x0A]" by simp
  have h6: "0 < chunk_size ?cfg" by simp
  have h7: "chunk_size ?cfg dvd length [0x61 :: 8 word, 0x0A]" by simp
  note inst = chunk_without_newline_raises [where p = 0 and file_size = 3 and csize = 2
      and resource = "[0x61, 0x62, 0x0A]" and decoded = "py_str ''ab''" and overlap = "[]"
      and s = "py_str ''a'' @ [10] @ py_str ''b''" and buffer = "py_str ''a''"
      and overlap' = "py_str ''b''" and raw = "[0x61, 0x0A]" and cfg = ?cfg and rest = "[]"
      and st = "\<lparr>dest = None, trace = []\<rparr>"]
  from inst h1 h2 h3 have a: "chunk_loop 2 3 0 [] [0x61, 0x62, 0x0A] = ([], Raised ValueError)"
    by blast
  from inst h4 have b: "10 \<notin> set (py_str ''b'')" by blast
  from inst h5 have c: "snd (generate_chunk 2 [0x61, 0x0A]) = Raised ValueError" by blast
  from inst h6 h7 have d: "fst (pre_process_resource ?cfg [[0x61, 0x0A]] \<lparr>dest = None, trace = []\<rparr>)
          = Some ValueError" by blast
  from a h4 b c d show ?thesis by simp
qed

text \<open>
  C10. \<open>SpecificCollocate.process\<close> never raises, and in the table it returns every
  word of interest has a counter in which no key has a larger count than \<open>TOTAL\<close>.
  \<open>+=\<close> keeps this property of two counters, and so the table that the merge loop of
  \<open>execute\<close> builds from partial results of \<open>process\<close> has it too.
\<close>

theorem total_dominates_every_window:
  "(\<exists>t. specific_process words n lns = Inr t \<and> dom t = set words \<and>
        (\<forall>w c. t w = Some c \<longrightarrow> total_dominates c)) \<and>
   (total_dominates a \<longrightarrow> total_dominates b \<longrightarrow> total_dominates (counter_iadd a b)) \<and>
   ((\<forall>t \<in> set counts. \<exists>part. specific_process words n part = Inr t) \<longrightarrow>
      (\<exists>m. merge_tables words counts = Inr m \<and> dom m = set words \<and>
           (\<forall>w c. m w = Some c \<longrightarrow> total_dominates c)))"
proof (intro conjI impI)
  show "\<exists>t. specific_process words n lns = Inr t \<and> dom t = set words \<and>
        (\<forall>w c. t w = Some c \<longrightarrow> total_dominates c)"
    using specific_process_ok [of words n lns] unfolding table_ok_def by blast
next
  assume "total_dominates a" "total_dominates b"
  then show "total_dominates (counter_iadd a b)" by (rule total_dominates_iadd)
next
  assume parts: "\<forall>t \<in> set counts. \<exists>part. specific_process words n part = Inr t"
  have "\<forall>t \<in> set counts. table_ok words t"
  proof
    fix t assume "t \<in> set counts"
    with parts obtain part where "specific_process words n part = Inr t" by blast
    with specific_process_ok [of words n part] show "table_ok words t" by auto
  qed
  from merge_tables_ok [OF this]
  show "\<exists>m. merge_tables words counts = Inr m \<and> dom m = set words \<and>
           (\<forall>w c. m w = Some c \<longrightarrow> total_dominates c)"
    unfolding table_ok_def by blast
qed

text \<open>
  C10 on the word "fox", \<open>n = 1\<close> and the line "the quick brown fox jumps high", on
  the counters {TOTAL: 2, jumps: 1} and {TOTAL: 1}, and on the merge of two copies of
  the table of that line.
\<close>

theorem total_dominates_every_window_witness:
  "specific_process [py_str ''fox''] 1 [py_str ''the quick brown fox jumps high'']
     = Inr [py_str ''fox'' \<mapsto> [py_str ''TOTAL'' \<mapsto> 1, py_str ''jumps'' \<mapsto> 1]] \<and>
   total_dominates [py_str ''TOTAL'' \<mapsto> 1, py_str ''jumps'' \<mapsto> 1] \<and>
   total_dominates [py_str ''TOTAL'' \<mapsto> 2, py_str ''jumps'' \<mapsto> 1] \<and>
   total_dominates [py_str ''TOTAL'' \<mapsto> 1] \<and>
   total_dominates (counter_iadd [py_str ''TOTAL'' \<mapsto> 2, py_str ''jumps'' \<mapsto> 1] [py_str ''TOTAL'' \<mapsto> 1]) \<and>
   (\<exists>m c. merge_tables [py_str ''fox'']
             [[py_str ''fox'' \<mapsto> [py_str ''TOTAL'' \<mapsto> 1, py_str ''jumps'' \<mapsto> 1]],
              [py_str ''fox'' \<mapsto> [py_str ''TOTAL'' \<mapsto> 1, py_str ''jumps'' \<mapsto> 1]]] = Inr m \<and>
       m (py_str ''fox'') = Some c \<and>
       counter_get c (py_str ''jumps'') \<le> counter_get c (py_str ''TOTAL''))"
proof -
  let ?a = "[py_str ''TOTAL'' \<mapsto> (2::int), py_str ''jumps'' \<mapsto> 1]"
  let ?b = "[py_str ''TOTAL'' \<mapsto> (1::int)]"
  let ?t = "[py_str ''fox'' \<mapsto> [py_str ''TOTAL'' \<mapsto> (1::int), py_str ''jumps'' \<mapsto> 1]]"
  have a: "total_dominates ?a"
    by (simp add: total_dominates_def counter_get_def)
  have b: "total_dominates ?b"
    by (simp add: total_dominates_def counter_get_def)
  have parts: "\<forall>t \<in> set [?t, ?t]. \<exists>part. specific_process [py_str ''fox''] 1 part = Inr t"
    using process_fox_line by auto
  note inst = total_dominates_every_window [where words = "[py_str ''fox'']" and n = 1
      and lns = "[py_str ''the quick brown fox jumps high'']" and a = ?a and b = ?b
      and counts = "[?t, ?t]"]
  from inst process_fox_line
  have 1: "total_dominates [py_str ''TOTAL'' \<mapsto> 1, py_str ''jumps'' \<mapsto> 1]"
    by (metis fun_upd_same sum.inject(2))
  from inst parts obtain m where m: "merge_tables [py_str ''fox''] [?t, ?t] = Inr m"
    "dom m = set [py_str ''fox'']" "\<forall>w c. m w = Some c \<longrightarrow> total_dominates c"
    by blast
  from m(2) obtain c where c: "m (py_str ''fox'') = Some c" by auto
  with m(3) have "counter_get c (py_str ''jumps'') \<le> counter_get c (py_str ''TOTAL'')"
    by (auto simp: total_dominates_def)
  with m(1) c have 2: "\<exists>m c. merge_tables [py_str ''fox''] [?t, ?t] = Inr m \<and>
       m (py_str ''fox'') = Some c \<and>
       counter_get c (py_str ''jumps'') \<le> counter_get c (py_str ''TOTAL'')" by blast
  from inst a b have 3: "total_dominates (counter_iadd ?a ?b)" by blast
  from process_fox_line 1 2 3 a b show ?thesis by blast
qed

end
